theory Spec2Isabelle
  imports Main
begin

section \<open>Directions, strings and errors\<close>

text \<open>The two-valued axis of \<^verbatim>\<open>src/commands/text.ts\<close>: \<open>L\<close> is \<open>-1\<close>, \<open>R\<close> is \<open>1\<close>,
  and \<open>opp dir\<close> is the source's \<open>-dir\<close>. \<open>prayDirection\<close> always passes on this type.\<close>

datatype dir = L | R

fun opp :: "dir \<Rightarrow> dir" where
  "opp L = R"
| "opp R = L"

datatype error = PrayFailed | IndexSizeError | TypeError | NoMatch | Diverges | NoSegment

definition bslash :: char where
  "bslash = CHR 0x5C"

text \<open>\<open>String.prototype.slice(b, e)\<close>: negative indices count from the end, both are clamped.\<close>

definition js_slice :: "string \<Rightarrow> int \<Rightarrow> int \<Rightarrow> string" where
  "js_slice s b e =
     (let n = int (length s);
          from = (if b < 0 then max (n + b) 0 else min b n);
          to = (if e < 0 then max (n + e) 0 else min e n)
      in take (nat (to - from)) (drop (nat from) s))"

text \<open>\<open>s.slice(b)\<close> is \<open>s.slice(b, s.length)\<close>.\<close>

definition js_slice_from :: "string \<Rightarrow> int \<Rightarrow> string" where
  "js_slice_from s b = js_slice s b (int (length s))"

text \<open>\<open>String.prototype.charAt(i)\<close>: the empty string when \<open>i\<close> is out of range.\<close>

definition js_charAt :: "string \<Rightarrow> int \<Rightarrow> string" where
  "js_charAt s i = (if 0 \<le> i \<and> i < int (length s) then [s ! nat i] else [])"

text \<open>\<open>s.replace(re, repl)\<close> for a global regular expression \<open>re\<close> that matches single
  characters (here \<open>/\\/g\<close> and \<open>/[{}]/g\<close>): the string is scanned left to right and every
  matching character \<open>c\<close> is replaced by \<open>repl c\<close>, the replacement pattern with \<open>$&\<close> expanded.\<close>

fun js_replace_global :: "(char \<Rightarrow> bool) \<Rightarrow> (char \<Rightarrow> string) \<Rightarrow> string \<Rightarrow> string" where
  "js_replace_global m repl [] = []"
| "js_replace_global m repl (c # cs) =
     (if m c then repl c @ js_replace_global m repl cs else c # js_replace_global m repl cs)"

section \<open>The document tree, the visual mirror and the cursor\<close>

datatype kind = TextBlockK | TextPieceK | MathBlockK | RootMathCommandK | VanillaSymbolK

text \<open>A child of a region's \<open>span\<close> element: a DOM Text node (by handle) or some element.\<close>

datatype domchild = TextNode nat | ElemNode nat

text \<open>One \<open>MQNode\<close>: the linkage fields of the node base class, and the fields that
  \<open>TextBlock\<close> (\<open>ctrlSeq\<close>, \<open>replacedText\<close>, the children of its span) and \<open>TextPiece\<close>
  (\<open>textStr\<close>, its DOM Text node) add.\<close>

record node =
  kind :: kind
  parent :: "nat option"
  sibL :: "nat option"
  sibR :: "nat option"
  endL :: "nat option"
  endR :: "nat option"
  textStr :: string
  ctrlSeq :: string
  replacedText :: "string option"
  domText :: "nat option"
  spanKids :: "domchild list option"

text \<open>A \<open>Point\<close> is a gap between two siblings; the \<open>Cursor\<close> is a point with an optional
  anticursor.\<close>

record point =
  pParent :: "nat option"
  pL :: "nat option"
  pR :: "nat option"

record cursor = point +
  anticursor :: "point option"

text \<open>The whole mutable world: the arena of nodes, the data of the DOM Text nodes, the
  cursor, and the accessibility queue (\<open>cursor.controller.aria\<close>).\<close>

record state =
  heap :: "nat \<Rightarrow> node"
  nextRef :: nat
  domData :: "nat \<Rightarrow> string"
  nextDom :: nat
  cur :: cursor
  aria :: "string list"

fun sib :: "dir \<Rightarrow> node \<Rightarrow> nat option" where
  "sib L n = sibL n"
| "sib R n = sibR n"

fun set_sib :: "dir \<Rightarrow> nat option \<Rightarrow> node \<Rightarrow> node" where
  "set_sib L v n = n\<lparr>sibL := v\<rparr>"
| "set_sib R v n = n\<lparr>sibR := v\<rparr>"

fun getEnd :: "dir \<Rightarrow> node \<Rightarrow> nat option" where
  "getEnd L n = endL n"
| "getEnd R n = endR n"

fun cdir :: "dir \<Rightarrow> 'a point_scheme \<Rightarrow> nat option" where
  "cdir L p = pL p"
| "cdir R p = pR p"

fun set_cdir :: "dir \<Rightarrow> nat option \<Rightarrow> 'a point_scheme \<Rightarrow> 'a point_scheme" where
  "set_cdir L v p = p\<lparr>pL := v\<rparr>"
| "set_cdir R v p = p\<lparr>pR := v\<rparr>"

definition upd :: "state \<Rightarrow> nat \<Rightarrow> (node \<Rightarrow> node) \<Rightarrow> state" where
  "upd st r f = st\<lparr>heap := (heap st)(r := f (heap st r))\<rparr>"

definition blank :: "kind \<Rightarrow> node" where
  "blank k = \<lparr>kind = k, parent = None, sibL = None, sibR = None, endL = None, endR = None,
     textStr = [], ctrlSeq = [], replacedText = None, domText = None, spanKids = None\<rparr>"

text \<open>\<open>new C(...)\<close>: the node is stored at the next free handle.\<close>

definition alloc :: "state \<Rightarrow> node \<Rightarrow> nat \<times> state" where
  "alloc st n = (nextRef st, st\<lparr>heap := (heap st)(nextRef st := n), nextRef := Suc (nextRef st)\<rparr>)"

text \<open>\<open>new TextPiece(text)\<close> (text.ts, lines 204-207).\<close>

definition newTextPiece :: "state \<Rightarrow> string \<Rightarrow> nat \<times> state" where
  "newTextPiece st text = alloc st ((blank TextPieceK)\<lparr>textStr := text\<rparr>)"

text \<open>\<open>new TextBlock()\<close> with the control sequence of the class (\<open>\\text\<close>, or the one that
  \<open>makeTextBlock\<close> was given).\<close>

definition newTextBlock :: "state \<Rightarrow> string \<Rightarrow> nat \<times> state" where
  "newTextBlock st cs = alloc st ((blank TextBlockK)\<lparr>ctrlSeq := cs\<rparr>)"

subsection \<open>Tree linkage\<close>

text \<open>Modelled from the spec: \<open>adopt\<close> of the node base class (tree.ts is not in src/), the
  "generic parent/child/sibling adoption" of section 6. The node gets its parent and its two
  siblings; each sibling, or else the parent's end on that side, is pointed at the node.\<close>

definition adopt :: "state \<Rightarrow> nat \<Rightarrow> nat \<Rightarrow> nat option \<Rightarrow> nat option \<Rightarrow> state" where
  "adopt st self par withL withR =
     (let st1 = upd st self (\<lambda>n. n\<lparr>parent := Some par, sibL := withL, sibR := withR\<rparr>);
          st2 = (case withL of Some l \<Rightarrow> upd st1 l (\<lambda>n. n\<lparr>sibR := Some self\<rparr>)
                 | None \<Rightarrow> upd st1 par (\<lambda>n. n\<lparr>endL := Some self\<rparr>))
      in (case withR of Some r \<Rightarrow> upd st2 r (\<lambda>n. n\<lparr>sibL := Some self\<rparr>)
          | None \<Rightarrow> upd st2 par (\<lambda>n. n\<lparr>endR := Some self\<rparr>)))"

text \<open>Modelled from the spec: \<open>disown\<close> of the node base class, the "removal" of section 6.
  The node's neighbours (or the parent's ends) are linked past it; the node keeps its own
  pointers, which \<open>deleteTowards\<close> reads after \<open>remove()\<close>.\<close>

definition disown :: "state \<Rightarrow> nat \<Rightarrow> state" where
  "disown st self =
     (let n = heap st self in
      case parent n of None \<Rightarrow> st
      | Some par \<Rightarrow>
         (let st1 = (case sibL n of Some l \<Rightarrow> upd st l (\<lambda>m. m\<lparr>sibR := sibR n\<rparr>)
                     | None \<Rightarrow> upd st par (\<lambda>m. m\<lparr>endL := sibR n\<rparr>))
          in (case sibR n of Some r \<Rightarrow> upd st1 r (\<lambda>m. m\<lparr>sibL := sibL n\<rparr>)
              | None \<Rightarrow> upd st1 par (\<lambda>m. m\<lparr>endR := sibL n\<rparr>))))"

text \<open>Modelled from the spec: \<open>self.children().disown()\<close>, which "discards all current Text
  Segment instances": the region is left without children.\<close>

definition disownChildren :: "state \<Rightarrow> nat \<Rightarrow> state" where
  "disownChildren st self = upd st self (\<lambda>n. n\<lparr>endL := None, endR := None\<rparr>)"

text \<open>Modelled from the spec: \<open>isEmpty\<close> of the node base class: no child at either end.\<close>

definition isEmpty :: "node \<Rightarrow> bool" where
  "isEmpty n = (endL n = None \<and> endR n = None)"

text \<open>Modelled from the spec: \<open>foldChildren\<close> of the node base class: the loop over the
  "ordered linked sequence" of children, from the left end along the right-sibling pointers.
  On a cyclic chain the loop never returns, which is the value \<open>None\<close>.\<close>

partial_function (option) foldFrom ::
  "(nat \<Rightarrow> node) \<Rightarrow> ('a \<Rightarrow> nat \<Rightarrow> 'a) \<Rightarrow> nat option \<Rightarrow> 'a \<Rightarrow> 'a option" where
  "foldFrom h f p acc =
     (case p of None \<Rightarrow> Some acc | Some x \<Rightarrow> foldFrom h f (sibR (h x)) (f acc x))"

declare foldFrom.simps [code]

definition foldChildren :: "state \<Rightarrow> nat \<Rightarrow> 'a \<Rightarrow> ('a \<Rightarrow> nat \<Rightarrow> 'a) \<Rightarrow> 'a option" where
  "foldChildren st self init f = foldFrom (heap st) f (endL (heap st self)) init"

text \<open>The children of a node as a list of handles, by the same loop.\<close>

definition children :: "state \<Rightarrow> nat \<Rightarrow> nat list option" where
  "children st self = foldChildren st self [] (\<lambda>acc x. acc @ [x])"

subsection \<open>The visual mirror\<close>

text \<open>Modelled from the spec: the rendering surface of section 6 (dom.ts and the DOM are not
  in src/): "append/insert/delete a character range", "split it at an offset", "normalize
  adjacent runs into one", "report the single mirrored text run under a given container
  (failing if more than one exists)".\<close>

text \<open>\<open>node.domFrag().oneText()\<close>: the Text node of a segment; fails when it has none.\<close>

definition oneText :: "state \<Rightarrow> nat \<Rightarrow> error + nat" where
  "oneText st pc = (case domText (heap st pc) of None \<Rightarrow> Inl PrayFailed | Some d \<Rightarrow> Inr d)"

definition appendData :: "state \<Rightarrow> nat \<Rightarrow> string \<Rightarrow> state" where
  "appendData st d text = st\<lparr>domData := (domData st)(d := domData st d @ text)\<rparr>"

definition insertData0 :: "state \<Rightarrow> nat \<Rightarrow> string \<Rightarrow> state" where
  "insertData0 st d text = st\<lparr>domData := (domData st)(d := text @ domData st d)\<rparr>"

text \<open>\<open>deleteData(offset, count)\<close> throws when the offset is past the end of the data.\<close>

definition deleteData :: "state \<Rightarrow> nat \<Rightarrow> int \<Rightarrow> nat \<Rightarrow> error + state" where
  "deleteData st d off cnt =
     (if off < 0 \<or> int (length (domData st d)) < off then Inl IndexSizeError
      else Inr (st\<lparr>domData := (domData st)(d :=
              take (nat off) (domData st d) @ drop (nat off + cnt) (domData st d))\<rparr>))"

fun insertAfter :: "domchild \<Rightarrow> domchild \<Rightarrow> domchild list \<Rightarrow> domchild list" where
  "insertAfter a b [] = []"
| "insertAfter a b (k # ks) = (if k = a then k # b # ks else k # insertAfter a b ks)"

fun insertBefore :: "domchild \<Rightarrow> domchild \<Rightarrow> domchild list \<Rightarrow> domchild list" where
  "insertBefore a b [] = []"
| "insertBefore a b (k # ks) = (if k = a then b # k # ks else k # insertBefore a b ks)"

text \<open>\<open>splitText(i)\<close> of the Text node \<open>d\<close> of a segment whose region is \<open>par\<close>: the data from
  \<open>i\<close> on moves to a new Text node, placed right after \<open>d\<close> under the region's span.\<close>

definition splitText :: "state \<Rightarrow> nat option \<Rightarrow> nat \<Rightarrow> int \<Rightarrow> error + (nat \<times> state)" where
  "splitText st par d i =
     (if i < 0 \<or> int (length (domData st d)) < i then Inl IndexSizeError
      else
        (let d' = nextDom st;
             st1 = st\<lparr>domData := (domData st)(d := take (nat i) (domData st d),
                                               d' := drop (nat i) (domData st d)),
                      nextDom := Suc d'\<rparr>;
             st2 = (case par of None \<Rightarrow> st1
                    | Some p \<Rightarrow> upd st1 p (\<lambda>n. n\<lparr>spanKids :=
                          map_option (insertAfter (TextNode d) (TextNode d')) (spanKids n)\<rparr>))
         in Inr (d', st2)))"

text \<open>\<open>Node.normalize()\<close> on the children of a span: empty Text nodes are removed, and each
  other Text node absorbs the data of the Text nodes that follow it directly. \<open>c\<close> is the
  Text node that is currently absorbing.\<close>

fun normalize :: "domchild list \<Rightarrow> nat option \<Rightarrow> (nat \<Rightarrow> string)
    \<Rightarrow> domchild list \<times> (nat \<Rightarrow> string)" where
  "normalize [] c dat = ([], dat)"
| "normalize (ElemNode e # ks) c dat =
     (let (ks', dat') = normalize ks None dat in (ElemNode e # ks', dat'))"
| "normalize (TextNode d # ks) (Some a) dat = normalize ks (Some a) (dat(a := dat a @ dat d))"
| "normalize (TextNode d # ks) None dat =
     (if dat d = [] then normalize ks None dat
      else (let (ks', dat') = normalize ks (Some d) dat in (TextNode d # ks', dat')))"

text \<open>\<open>node.domFrag().remove()\<close> for a node under a region's span: its Text node leaves the
  span's children.\<close>

definition domRemove :: "state \<Rightarrow> nat \<Rightarrow> state" where
  "domRemove st self =
     (case (domText (heap st self), parent (heap st self)) of
        (Some d, Some p) \<Rightarrow>
          upd st p (\<lambda>n. n\<lparr>spanKids := map_option (filter (\<lambda>k. k \<noteq> TextNode d)) (spanKids n)\<rparr>)
      | _ \<Rightarrow> st)"

text \<open>Modelled from the spec: \<open>remove\<close> of the node base class: the mirror of the node is
  taken out of the rendering surface and the node is disowned.\<close>

definition remove :: "state \<Rightarrow> nat \<Rightarrow> state" where
  "remove st self = disown (domRemove st self) self"

text \<open>\<open>setDOM\<close> binds a segment to a Text node.\<close>

definition setDOM :: "state \<Rightarrow> nat \<Rightarrow> nat \<Rightarrow> state" where
  "setDOM st pc d = upd st pc (\<lambda>n. n\<lparr>domText := Some d\<rparr>)"

subsection \<open>Cursor placement\<close>

text \<open>Modelled from the spec: \<open>cursor.insDirOf(dir, el)\<close> (cursor.ts is not in src/), the
  "insert-cursor-at-direction-of-node" of section 6: the cursor becomes the gap on side \<open>dir\<close>
  of \<open>el\<close>, in \<open>el\<close>'s parent.\<close>

definition insDirOf :: "dir \<Rightarrow> nat \<Rightarrow> state \<Rightarrow> state" where
  "insDirOf d el st =
     st\<lparr>cur := set_cdir (opp d) (Some el)
                 (set_cdir d (sib d (heap st el)) ((cur st)\<lparr>pParent := parent (heap st el)\<rparr>))\<rparr>"

definition insLeftOf :: "nat \<Rightarrow> state \<Rightarrow> state" where
  "insLeftOf el st = insDirOf L el st"

definition insRightOf :: "nat \<Rightarrow> state \<Rightarrow> state" where
  "insRightOf el st = insDirOf R el st"

text \<open>Modelled from the spec: \<open>cursor.insAtDirEnd(dir, el)\<close>: the cursor moves inside \<open>el\<close>, at
  its end on side \<open>dir\<close>.\<close>

definition insAtDirEnd :: "dir \<Rightarrow> nat \<Rightarrow> state \<Rightarrow> state" where
  "insAtDirEnd d el st =
     st\<lparr>cur := set_cdir (opp d) (getEnd d (heap st el))
                 (set_cdir d None ((cur st)\<lparr>pParent := Some el\<rparr>))\<rparr>"

definition insAtRightEnd :: "nat \<Rightarrow> state \<Rightarrow> state" where
  "insAtRightEnd el st = insAtDirEnd R el st"


section \<open>TextBlock: the text region\<close>

text \<open>\<open>textContents\<close> (lines 74-78): the fold of the children's \<open>textStr\<close>, left to right.\<close>

definition textContents :: "state \<Rightarrow> nat \<Rightarrow> string option" where
  "textContents st self = foldChildren st self [] (\<lambda>text child. text @ textStr (heap st child))"

text \<open>\<open>TextPiece.html\<close> (lines 208-212): a new Text node holding \<open>textStr\<close>, bound to the
  segment.\<close>

definition htmlTextPiece :: "nat \<Rightarrow> state \<Rightarrow> state" where
  "htmlTextPiece self st =
     (let d = nextDom st
      in setDOM (st\<lparr>domData := (domData st)(d := textStr (heap st self)), nextDom := Suc d\<rparr>)
           self d)"

text \<open>\<open>TextBlock.html\<close> (lines 94-101): a span whose only child is a Text node holding
  \<open>textContents()\<close>.\<close>

definition htmlTextBlock :: "nat \<Rightarrow> state \<Rightarrow> error + state" where
  "htmlTextBlock self st =
     (case textContents st self of None \<Rightarrow> Inl Diverges
      | Some t \<Rightarrow>
          (let d = nextDom st
           in Inr (upd (st\<lparr>domData := (domData st)(d := t), nextDom := Suc d\<rparr>) self
                     (\<lambda>n. n\<lparr>spanKids := Some [TextNode d]\<rparr>))))"

text \<open>The \<open>html()\<close> of a node by its class; the mirror of the math classes is not modelled.\<close>

definition html :: "nat \<Rightarrow> state \<Rightarrow> error + state" where
  "html self st =
     (case kind (heap st self) of
        TextPieceK \<Rightarrow> Inr (htmlTextPiece self st)
      | TextBlockK \<Rightarrow> htmlTextBlock self st
      | _ \<Rightarrow> Inr st)"

text \<open>Modelled from the spec: the mirror half of \<open>createDir\<close>, "create a mirrored text run":
  the Text node of a new segment is placed under the span of the cursor's parent, next to the
  mirror of the cursor's neighbour.\<close>

definition domInsertAtCursor :: "nat \<Rightarrow> nat \<Rightarrow> state \<Rightarrow> state" where
  "domInsertAtCursor self par st =
     (case domText (heap st self) of None \<Rightarrow> st
      | Some d \<Rightarrow>
        (let lft = (case pL (cur st) of None \<Rightarrow> None | Some l \<Rightarrow> domText (heap st l));
             rgt = (case pR (cur st) of None \<Rightarrow> None | Some r \<Rightarrow> domText (heap st r))
         in upd st par (\<lambda>n. n\<lparr>spanKids := map_option
              (\<lambda>ks. case lft of Some a \<Rightarrow> insertAfter (TextNode a) (TextNode d) ks
                     | None \<Rightarrow> (case rgt of Some b \<Rightarrow> insertBefore (TextNode b) (TextNode d) ks
                                | None \<Rightarrow> ks @ [TextNode d]))
              (spanKids n)\<rparr>)))"

text \<open>Modelled from the spec: \<open>createDir(dir, cursor)\<close> of the node base class: the node is
  rendered at the cursor and adopted by the cursor's parent between the cursor's two
  neighbours; the cursor's neighbour on side \<open>dir\<close> becomes the node.\<close>

definition createDir :: "dir \<Rightarrow> nat \<Rightarrow> state \<Rightarrow> error + state" where
  "createDir d self st =
     (case pParent (cur st) of None \<Rightarrow> Inl TypeError
      | Some par \<Rightarrow>
          (case html self st of Inl e \<Rightarrow> Inl e
           | Inr st1 \<Rightarrow>
              (let st2 = domInsertAtCursor self par st1;
                   st3 = adopt st2 self par (pL (cur st2)) (pR (cur st2))
               in Inr (st3\<lparr>cur := set_cdir d (Some self) (cur st3)\<rparr>))))"

text \<open>\<open>replaces\<close> (lines 17-22) with a string argument: the text is recorded for replay.
  (With a \<open>Fragment\<close> the text is the rendered text of the removed fragment.)\<close>

definition replaces :: "nat \<Rightarrow> string \<Rightarrow> state \<Rightarrow> state" where
  "replaces self s st = upd st self (\<lambda>n. n\<lparr>replacedText := Some s\<rparr>)"

text \<open>\<open>TextBlock.write\<close> (lines 152-153) and \<open>writeLatex\<close> (lines 154-155): both bodies are
  empty.\<close>

definition write_TextBlock :: "nat \<Rightarrow> string \<Rightarrow> state \<Rightarrow> state" where
  "write_TextBlock self ch st = st"

definition writeLatex :: "nat \<Rightarrow> string \<Rightarrow> state \<Rightarrow> state" where
  "writeLatex self ltx st = st"

text \<open>The loop of \<open>createLeftOf\<close> (lines 43-44): one \<open>write\<close> for each character of the
  recorded text, in order.\<close>

fun replay :: "nat \<Rightarrow> string \<Rightarrow> state \<Rightarrow> state" where
  "replay self [] st = st"
| "replay self (c # cs) st = replay self cs (write_TextBlock self [c] st)"

text \<open>Modelled from the spec: \<open>siblingCreated\<close> and \<open>bubble(reflow)\<close>, by which
  \<open>createLeftOf\<close> "notifies adjacent siblings of the new neighbor and forces a layout refresh
  up the tree"; they act on the math neighbours and on the layout, which are not modelled.\<close>

definition siblingCreated :: "nat \<Rightarrow> dir \<Rightarrow> state \<Rightarrow> state" where
  "siblingCreated sibling d st = st"

definition bubbleReflow :: "nat \<Rightarrow> state \<Rightarrow> state" where
  "bubbleReflow self st = st"

text \<open>\<open>createLeftOf\<close> (lines 36-54). \<open>super.createLeftOf(cursor)\<close> is \<open>createDir(L, cursor)\<close>;
  an empty recorded text is falsy, so it is not replayed.\<close>

definition createLeftOf :: "nat \<Rightarrow> state \<Rightarrow> error + state" where
  "createLeftOf self st =
     (case createDir L self st of Inl e \<Rightarrow> Inl e
      | Inr st1 \<Rightarrow>
          (let st2 = insAtRightEnd self st1;
               st3 = (case replacedText (heap st2 self) of None \<Rightarrow> st2
                      | Some s \<Rightarrow> if s = [] then st2 else replay self s st2);
               st4 = (case sibR (heap st3 self) of None \<Rightarrow> st3
                      | Some r \<Rightarrow> siblingCreated r L st3);
               st5 = (case sibL (heap st4 self) of None \<Rightarrow> st4
                      | Some l \<Rightarrow> siblingCreated l R st4)
           in Inr (bubbleReflow self st5)))"

subsection \<open>Parsing the bracketed body\<close>

text \<open>Modelled from the spec: the grammar engine's combinators (parser.ts is not in src/):
  "literal-string match, non-greedy bracket-body regex match, and result mapping". A parser
  consumes a prefix of the stream or reports no match. Characters are bytes here, so of the
  characters that \<open>\\s\<close> matches and \<open>.\<close> refuses only those below 256 occur.\<close>

definition is_space :: "char \<Rightarrow> bool" where
  "is_space c = (c \<in> {CHR 0x09, CHR 0x0A, CHR 0x0B, CHR 0x0C, CHR 0x0D, CHR 0x20, CHR 0xA0})"

definition is_line_terminator :: "char \<Rightarrow> bool" where
  "is_line_terminator c = (c \<in> {CHR 0x0A, CHR 0x0D})"

text \<open>\<open>Parser.optWhitespace\<close>, the regex \<open>/^\\s*/\<close>: the stream without its leading whitespace.\<close>

definition optWhitespace :: "string \<Rightarrow> string" where
  "optWhitespace stream = dropWhile is_space stream"

text \<open>\<open>Parser.string(s)\<close>: the stream without the prefix \<open>s\<close>, if it starts with \<open>s\<close>.\<close>

definition stringP :: "string \<Rightarrow> string \<Rightarrow> string option" where
  "stringP s stream = (if take (length s) stream = s then Some (drop (length s) stream) else None)"

text \<open>\<open>regex(/^(.*?)(?=}$)/)\<close> (line 64): the lazy \<open>.*?\<close> takes one more character only
  when the lookahead fails, and the lookahead wants a \<open>}\<close> followed by the end of the input.
  The result is the matched text; the stream goes on after it.\<close>

fun bodyRegex :: "string \<Rightarrow> string option" where
  "bodyRegex [] = None"
| "bodyRegex (c # cs) =
     (if c = CHR ''}'' \<and> cs = [] then Some []
      else if is_line_terminator c then None
      else map_option (Cons c) (bodyRegex cs))"

datatype parsed = EmptyFragment | Block nat

text \<open>\<open>parser\<close> (lines 56-72), run on a stream: on a match, the result of the mapping
  function, the rest of the stream and the new state.\<close>

definition parser :: "nat \<Rightarrow> string \<Rightarrow> state \<Rightarrow> error + (parsed \<times> string \<times> state)" where
  "parser self stream st =
     (case stringP ''{'' (optWhitespace stream) of None \<Rightarrow> Inl NoMatch
      | Some s1 \<Rightarrow>
         (case bodyRegex s1 of None \<Rightarrow> Inl NoMatch
          | Some text \<Rightarrow>
             (case stringP ''}'' (drop (length text) s1) of None \<Rightarrow> Inl NoMatch
              | Some rest \<Rightarrow>
                  if length text = 0 then Inr (EmptyFragment, rest, st)
                  else (let (pc, st1) = newTextPiece st text
                        in Inr (Block self, rest, adopt st1 pc self None None)))))"

subsection \<open>Serialization\<close>

record latexContext =
  latex :: string

text \<open>Modelled from the spec: \<open>checkCursorContextOpen\<close> and \<open>checkCursorContextClose\<close> of the
  node base class record selection offsets in the context; they leave the emitted text
  alone, and the offsets are not modelled.\<close>

definition checkCursorContextOpen :: "nat \<Rightarrow> latexContext \<Rightarrow> latexContext" where
  "checkCursorContextOpen self ctx = ctx"

definition checkCursorContextClose :: "nat \<Rightarrow> latexContext \<Rightarrow> latexContext" where
  "checkCursorContextClose self ctx = ctx"

text \<open>The two replacements of line 88: \<open>replace(/\\/g, '\\\\')\<close>, then
  \<open>replace(/[{}]/g, '\\$&')\<close>.\<close>

definition escapeContents :: "string \<Rightarrow> string" where
  "escapeContents contents =
     js_replace_global (\<lambda>c. c = CHR ''{'' \<or> c = CHR ''}'') (\<lambda>c. [bslash, c])
       (js_replace_global (\<lambda>c. c = bslash) (\<lambda>c. [bslash, bslash]) contents)"

text \<open>\<open>TextBlock.latexRecursive\<close> (lines 82-93).\<close>

definition latexRecursive :: "nat \<Rightarrow> state \<Rightarrow> latexContext \<Rightarrow> error + latexContext" where
  "latexRecursive self st ctx =
     (let ctx1 = checkCursorContextOpen self ctx in
      case textContents st self of None \<Rightarrow> Inl Diverges
      | Some contents \<Rightarrow>
          (let ctx2 = (if length contents > 0
                       then (let c1 = ctx1\<lparr>latex := latex ctx1 @ ctrlSeq (heap st self) @ ''{''\<rparr>;
                                 c2 = c1\<lparr>latex := latex c1 @ escapeContents contents\<rparr>
                             in c2\<lparr>latex := latex c2 @ ''}''\<rparr>)
                       else ctx1)
           in Inr (checkCursorContextClose self ctx2)))"

subsection \<open>Leaving the region\<close>

text \<open>\<open>deleteOutOf\<close> (lines 148-151).\<close>

definition deleteOutOf :: "dir \<Rightarrow> nat \<Rightarrow> state \<Rightarrow> state" where
  "deleteOutOf d self st = (if isEmpty (heap st self) then insRightOf self st else st)"

text \<open>\<open>TextBlockFuseChildren\<close> (lines 176-192). The span is normalized; without children
  nothing more happens; otherwise its children must be one single Text node, and a new
  segment with that node's data replaces all the children of the region.\<close>

definition TextBlockFuseChildren :: "nat \<Rightarrow> state \<Rightarrow> error + state" where
  "TextBlockFuseChildren self st =
     (case spanKids (heap st self) of None \<Rightarrow> Inl PrayFailed
      | Some kids \<Rightarrow>
         (let (kids', dat') = normalize kids None (domData st);
              st1 = upd (st\<lparr>domData := dat'\<rparr>) self (\<lambda>n. n\<lparr>spanKids := Some kids'\<rparr>)
          in (case kids' of
                [] \<Rightarrow> Inr st1
              | [TextNode d] \<Rightarrow>
                  (let (textPc, st2) = newTextPiece st1 (domData st1 d);
                       st3 = setDOM st2 textPc d;
                       st4 = disownChildren st3 self
                   in Inr (adopt st4 textPc self None None))
              | _ \<Rightarrow> Inl PrayFailed)))"

text \<open>\<open>blur\<close> (lines 165-173). \<open>hasCursor\<close> says whether a cursor was passed.
  \<open>MathBlock.prototype.blur\<close> only restyles the span, which is not modelled.\<close>

definition blur :: "nat \<Rightarrow> bool \<Rightarrow> state \<Rightarrow> error + state" where
  "blur self hasCursor st =
     (if \<not> hasCursor then Inr st
      else
        (case textContents st self of None \<Rightarrow> Inl Diverges
         | Some t \<Rightarrow>
            if t = [] then
              (let st1 = remove st self
               in Inr (if pL (cur st1) = Some self
                       then st1\<lparr>cur := (cur st1)\<lparr>pL := sibL (heap st1 self)\<rparr>\<rparr>
                       else if pR (cur st1) = Some self
                       then st1\<lparr>cur := (cur st1)\<lparr>pR := sibR (heap st1 self)\<rparr>\<rparr>
                       else st1))
            else TextBlockFuseChildren self st))"

section \<open>TextPiece: the text segment\<close>

definition queue :: "string \<Rightarrow> state \<Rightarrow> state" where
  "queue s st = st\<lparr>aria := aria st @ [s]\<rparr>"

text \<open>\<open>appendText\<close> (lines 213-216) and \<open>prependText\<close> (lines 217-220).\<close>

definition appendText :: "nat \<Rightarrow> string \<Rightarrow> state \<Rightarrow> error + state" where
  "appendText self text st =
     (let st1 = upd st self (\<lambda>n. n\<lparr>textStr := textStr n @ text\<rparr>)
      in case oneText st1 self of Inl e \<Rightarrow> Inl e | Inr d \<Rightarrow> Inr (appendData st1 d text))"

definition prependText :: "nat \<Rightarrow> string \<Rightarrow> state \<Rightarrow> error + state" where
  "prependText self text st =
     (let st1 = upd st self (\<lambda>n. n\<lparr>textStr := text @ textStr n\<rparr>)
      in case oneText st1 self of Inl e \<Rightarrow> Inl e | Inr d \<Rightarrow> Inr (insertData0 st1 d text))"

text \<open>\<open>insTextAtDirEnd\<close> (lines 221-225).\<close>

definition insTextAtDirEnd :: "nat \<Rightarrow> string \<Rightarrow> dir \<Rightarrow> state \<Rightarrow> error + state" where
  "insTextAtDirEnd self text d st =
     (if d = R then appendText self text st else prependText self text st)"

text \<open>\<open>splitRight\<close> (lines 226-235): the new segment and the new state.\<close>

definition splitRight :: "nat \<Rightarrow> int \<Rightarrow> state \<Rightarrow> error + (nat \<times> state)" where
  "splitRight self i st =
     (let (newPc, st1) = newTextPiece st (js_slice_from (textStr (heap st self)) i)
      in case parent (heap st1 self) of None \<Rightarrow> Inl TypeError
         | Some par \<Rightarrow>
            (let st2 = adopt st1 newPc par (Some self) (sibR (heap st1 self))
             in case oneText st2 self of Inl e \<Rightarrow> Inl e
                | Inr d \<Rightarrow>
                   (case splitText st2 (parent (heap st2 self)) d i of Inl e \<Rightarrow> Inl e
                    | Inr (d', st3) \<Rightarrow>
                        (let st4 = setDOM st3 newPc d'
                         in Inr (newPc, upd st4 self
                                   (\<lambda>n. n\<lparr>textStr := js_slice (textStr n) 0 i\<rparr>))))))"

text \<open>\<open>endChar\<close> (lines 237-239).\<close>

definition endChar :: "dir \<Rightarrow> string \<Rightarrow> string" where
  "endChar d text = js_charAt text (if d = L then 0 else -1 + int (length text))"

text \<open>\<open>TextPiece.deleteTowards\<close> (lines 261-283).\<close>

definition deleteTowards :: "dir \<Rightarrow> nat \<Rightarrow> state \<Rightarrow> error + state" where
  "deleteTowards d self st =
     (let t = textStr (heap st self) in
      if length t > 1 then
        (if d = R then
           (case oneText st self of Inl e \<Rightarrow> Inl e
            | Inr dn \<Rightarrow>
               (case deleteData st dn 0 1 of Inl e \<Rightarrow> Inl e
                | Inr st1 \<Rightarrow>
                    Inr (queue [t ! 0]
                          (upd st1 self (\<lambda>n. n\<lparr>textStr := js_slice_from (textStr n) 1\<rparr>)))))
         else
           (case oneText st self of Inl e \<Rightarrow> Inl e
            | Inr dn \<Rightarrow>
               (case deleteData st dn (-1 + int (length t)) 1 of Inl e \<Rightarrow> Inl e
                | Inr st1 \<Rightarrow>
                    Inr (queue [t ! (length t - 1)]
                          (upd st1 self (\<lambda>n. n\<lparr>textStr := js_slice (textStr n) 0 (-1)\<rparr>))))))
      else
        (let st1 = remove st self;
             st2 = st1\<lparr>cur := set_cdir d (sib d (heap st1 self)) (cur st1)\<rparr>
         in Inr (queue (textStr (heap st2 self)) st2)))"

text \<open>\<open>new TextPiece(ch).createDir(dir, cursor)\<close>, as \<open>moveTowards\<close> and \<open>selectTowards\<close>
  use it: the new segment and the new state.\<close>

definition createPiece :: "string \<Rightarrow> dir \<Rightarrow> state \<Rightarrow> error + (nat \<times> state)" where
  "createPiece ch d st =
     (let (pc, st1) = newTextPiece st ch
      in case createDir d pc st1 of Inl e \<Rightarrow> Inl e | Inr st2 \<Rightarrow> Inr (pc, st2))"

text \<open>\<open>from instanceof TextPiece\<close>.\<close>

definition isTextPiece :: "state \<Rightarrow> nat option \<Rightarrow> bool" where
  "isTextPiece st r = (case r of None \<Rightarrow> False | Some x \<Rightarrow> kind (heap st x) = TextPieceK)"

text \<open>\<open>TextPiece.moveTowards\<close> (lines 241-250).\<close>

definition moveTowards :: "dir \<Rightarrow> nat \<Rightarrow> state \<Rightarrow> error + state" where
  "moveTowards d self st =
     (let ch = endChar (opp d) (textStr (heap st self));
          from = sib (opp d) (heap st self);
          r = (if isTextPiece st from then insTextAtDirEnd (the from) ch d st
               else map_sum id snd (createPiece ch (opp d) st))
      in case r of Inl e \<Rightarrow> Inl e | Inr st1 \<Rightarrow> deleteTowards d self st1)"

text \<open>\<open>TextPiece.selectTowards\<close> (lines 285-313). Line 303 moves the mirror of the new
  segment out of the selection's element; the children of a span are modelled without the
  selection's element, so the line changes nothing here.\<close>

definition selectTowards :: "dir \<Rightarrow> nat \<Rightarrow> state \<Rightarrow> error + state" where
  "selectTowards d self st =
     (case anticursor (cur st) of None \<Rightarrow> Inr st
      | Some ac \<Rightarrow>
         (let ch = endChar (opp d) (textStr (heap st self));
              r = (if cdir d ac = Some self then
                     (case createPiece ch d st of Inl e \<Rightarrow> Inl e
                      | Inr (newPc, st1) \<Rightarrow>
                          (let st2 = st1\<lparr>cur := (cur st1)\<lparr>anticursor :=
                                       Some (set_cdir d (Some newPc) ac)\<rparr>\<rparr>
                           in Inr (insDirOf d newPc st2)))
                   else
                     (case (if isTextPiece st (sib (opp d) (heap st self))
                            then insTextAtDirEnd (the (sib (opp d) (heap st self))) ch d st
                            else map_sum id snd (createPiece ch (opp d) st)) of
                        Inl e \<Rightarrow> Inl e
                      | Inr st1 \<Rightarrow>
                          Inr (if length (textStr (heap st1 self)) = 1
                                  \<and> cdir (opp d) ac = Some self
                               then st1\<lparr>cur := (cur st1)\<lparr>anticursor :=
                                      Some (set_cdir (opp d) (sib (opp d) (heap st1 self)) ac)\<rparr>\<rparr>
                               else st1)))
          in case r of Inl e \<Rightarrow> Inl e | Inr st' \<Rightarrow> deleteTowards d self st'))"

section \<open>RootMathCommand: the embedded math expression\<close>




section \<open>The escaping in the words of the specification\<close>

text \<open>"Escaping doubles every backslash first, then escapes every literal \<open>{\<close>/\<open>}\<close> with a
  preceding backslash."\<close>

definition double_backslashes :: "string \<Rightarrow> string" where
  "double_backslashes s = concat (map (\<lambda>c. if c = bslash then [bslash, bslash] else [c]) s)"

definition prefix_braces :: "string \<Rightarrow> string" where
  "prefix_braces s =
     concat (map (\<lambda>c. if c = CHR ''{'' \<or> c = CHR ''}'' then [bslash, c] else [c]) s)"

definition spec_escape :: "string \<Rightarrow> string" where
  "spec_escape s = prefix_braces (double_backslashes s)"

section \<open>Example documents and scenarios\<close>

text \<open>An empty document: a root block at handle 0 with the cursor inside it.\<close>

definition emptyDoc :: state where
  "emptyDoc = \<lparr>heap = (\<lambda>_. blank MathBlockK), nextRef = 1, domData = (\<lambda>_. []), nextDom = 0,
     cur = \<lparr>pParent = Some 0, pL = None, pR = None, anticursor = None\<rparr>, aria = []\<rparr>"

definition textCtrlSeq :: string where
  "textCtrlSeq = bslash # ''text''"

text \<open>A region (handle 1) holding one segment (handle 2) with the given text, as
  \<open>parser\<close> builds it.\<close>

definition docWithText :: "string \<Rightarrow> state" where
  "docWithText text =
     (let (tb, st) = newTextBlock emptyDoc textCtrlSeq;
          (pc, st1) = newTextPiece st text
      in adopt st1 pc tb None None)"

text \<open>Parsing a bracketed body into a new region and reading \<open>textContents()\<close> back.\<close>

definition parseContents :: "string \<Rightarrow> error + string option" where
  "parseContents stream =
     (let (tb, st) = newTextBlock emptyDoc textCtrlSeq
      in case parser tb stream st of Inl e \<Rightarrow> Inl e
         | Inr (r, rest, st') \<Rightarrow> Inr (textContents st' tb))"

text \<open>An empty region (handle 1) in the root block, with the cursor inside the region.\<close>

definition emptyRegionDoc :: state where
  "emptyRegionDoc =
     (let (tb, st) = newTextBlock emptyDoc textCtrlSeq
      in insAtRightEnd tb (adopt st tb 0 None None))"

text \<open>The scenario of replacing content by a region: a new region records the text, is
  created left of the cursor, and is blurred. The result is the region and the final state.\<close>

definition replaceScenario :: "string \<Rightarrow> state \<Rightarrow> error + (nat \<times> state)" where
  "replaceScenario s st =
     (let (tb, st1) = newTextBlock st textCtrlSeq;
          st2 = replaces tb s st1
      in case createLeftOf tb st2 of Inl e \<Rightarrow> Inl e
         | Inr st3 \<Rightarrow> (case blur tb True st3 of Inl e \<Rightarrow> Inl e | Inr st4 \<Rightarrow> Inr (tb, st4)))"

definition scenarioContents :: "string \<Rightarrow> state \<Rightarrow> error + string option" where
  "scenarioContents s st =
     (case replaceScenario s st of Inl e \<Rightarrow> Inl e | Inr (tb, st') \<Rightarrow> Inr (textContents st' tb))"

definition scenarioSegments :: "string \<Rightarrow> state \<Rightarrow> error + nat list option" where
  "scenarioSegments s st =
     (case replaceScenario s st of Inl e \<Rightarrow> Inl e | Inr (tb, st') \<Rightarrow> Inr (children st' tb))"

text \<open>An embedded math expression: the command (handle 1) in the root block, its child
  block (handle 2) holding two symbols (handles 3 and 4), the cursor at the right end of the
  block.\<close>

definition mathDoc :: state where
  "mathDoc =
     \<lparr>heap = (\<lambda>_. blank MathBlockK)
        (0 := (blank MathBlockK)\<lparr>endL := Some 1, endR := Some 1\<rparr>,
         1 := (blank RootMathCommandK)\<lparr>parent := Some 0, endL := Some 2, endR := Some 2\<rparr>,
         2 := (blank MathBlockK)\<lparr>parent := Some 1, endL := Some 3, endR := Some 4\<rparr>,
         3 := (blank VanillaSymbolK)\<lparr>parent := Some 2, sibR := Some 4\<rparr>,
         4 := (blank VanillaSymbolK)\<lparr>parent := Some 2, sibL := Some 3\<rparr>),
      nextRef = 5, domData = (\<lambda>_. []), nextDom = 0,
      cur = \<lparr>pParent = Some 2, pL = Some 4, pR = None, anticursor = None\<rparr>, aria = []\<rparr>"

text \<open>The same document with the cursor at the left end of the block, and with the cursor
  between the two symbols.\<close>

definition mathDocLeft :: state where
  "mathDocLeft = mathDoc\<lparr>cur := (cur mathDoc)\<lparr>pL := None, pR := Some 3\<rparr>\<rparr>"

definition mathDocMid :: state where
  "mathDocMid = mathDoc\<lparr>cur := (cur mathDoc)\<lparr>pL := Some 3, pR := Some 4\<rparr>\<rparr>"


text \<open>The same expression with an empty child block.\<close>

definition emptyMathDoc :: state where
  "emptyMathDoc =
     \<lparr>heap = (\<lambda>_. blank MathBlockK)
        (0 := (blank MathBlockK)\<lparr>endL := Some 1, endR := Some 1\<rparr>,
         1 := (blank RootMathCommandK)\<lparr>parent := Some 0, endL := Some 2, endR := Some 2\<rparr>,
         2 := (blank MathBlockK)\<lparr>parent := Some 1\<rparr>),
      nextRef = 3, domData = (\<lambda>_. []), nextDom = 0,
      cur = \<lparr>pParent = Some 2, pL = None, pR = None, anticursor = None\<rparr>, aria = []\<rparr>"


text \<open>A stand-in for the math-mode \<open>write\<close>, which is not in src/: it returns the state as it
  is.\<close>

definition idleWrite :: "nat \<Rightarrow> char \<Rightarrow> state \<Rightarrow> error + state" where
  "idleWrite self ch st = Inr st"

section \<open>Well-formed child sequences\<close>

text \<open>A path along a pointer field: from \<open>p\<close> the field leads through exactly the nodes of
  the list and ends in \<open>q\<close>.\<close>

fun path :: "(nat \<Rightarrow> nat option) \<Rightarrow> nat option \<Rightarrow> nat list \<Rightarrow> nat option \<Rightarrow> bool" where
  "path f p [] q = (p = q)"
| "path f p (x # xs) q = (p = Some x \<and> path f (f x) xs q)"

text \<open>The last and the first element of a list, if any.\<close>

definition lastOpt :: "nat list \<Rightarrow> nat option" where
  "lastOpt xs = (case rev xs of [] \<Rightarrow> None | x # _ \<Rightarrow> Some x)"

definition headOpt :: "nat list \<Rightarrow> nat option" where
  "headOpt xs = (case xs of [] \<Rightarrow> None | x # _ \<Rightarrow> Some x)"

text \<open>The data model's "doubly linked ordered sequence" of the children \<open>xs\<close> of the node
  \<open>p\<close>: the right-sibling pointers lead from the left end through \<open>xs\<close>, the left-sibling
  pointers lead from the right end back through it, and every child names \<open>p\<close> as its parent.\<close>

definition wfChildren :: "state \<Rightarrow> nat \<Rightarrow> nat list \<Rightarrow> bool" where
  "wfChildren st p xs =
     (distinct xs \<and>
      path (\<lambda>x. sibR (heap st x)) (endL (heap st p)) xs None \<and>
      path (\<lambda>x. sibL (heap st x)) (endR (heap st p)) (rev xs) None \<and>
      list_all (\<lambda>x. parent (heap st x) = Some p) xs)"

text \<open>A region (handle 1) in the root block, holding the segments 2 (\<open>ab\<close>) and 3 (\<open>c\<close>)
  with their Text nodes 0 and 1 under the region's span; the cursor is at the left end of
  the region.\<close>

definition twoSegDoc :: state where
  "twoSegDoc =
     \<lparr>heap = (\<lambda>_. blank MathBlockK)
        (0 := (blank MathBlockK)\<lparr>endL := Some 1, endR := Some 1\<rparr>,
         1 := (blank TextBlockK)\<lparr>parent := Some 0, endL := Some 2, endR := Some 3,
                 ctrlSeq := textCtrlSeq, spanKids := Some [TextNode 0, TextNode 1]\<rparr>,
         2 := (blank TextPieceK)\<lparr>parent := Some 1, sibR := Some 3, textStr := ''ab'',
                 domText := Some 0\<rparr>,
         3 := (blank TextPieceK)\<lparr>parent := Some 1, sibL := Some 2, textStr := ''c'',
                 domText := Some 1\<rparr>),
      nextRef = 4, domData = (\<lambda>_. [])(0 := ''ab'', 1 := ''c''), nextDom = 2,
      cur = \<lparr>pParent = Some 1, pL = None, pR = Some 2, anticursor = None\<rparr>, aria = []\<rparr>"

text \<open>A region (handle 1) in the root block with the single segment 2 (\<open>ab\<close>).\<close>

definition oneSegDoc :: state where
  "oneSegDoc =
     \<lparr>heap = (\<lambda>_. blank MathBlockK)
        (0 := (blank MathBlockK)\<lparr>endL := Some 1, endR := Some 1\<rparr>,
         1 := (blank TextBlockK)\<lparr>parent := Some 0, endL := Some 2, endR := Some 2,
                 ctrlSeq := textCtrlSeq, spanKids := Some [TextNode 0]\<rparr>,
         2 := (blank TextPieceK)\<lparr>parent := Some 1, textStr := ''ab'', domText := Some 0\<rparr>),
      nextRef = 3, domData = (\<lambda>_. [])(0 := ''ab''), nextDom = 1,
      cur = \<lparr>pParent = Some 1, pL = None, pR = Some 2, anticursor = None\<rparr>, aria = []\<rparr>"

text \<open>Deleting characters one at a time: \<open>n\<close> calls of \<open>deleteTowards\<close> on a segment.\<close>

fun deleteRun :: "nat \<Rightarrow> dir \<Rightarrow> nat \<Rightarrow> state \<Rightarrow> error + state" where
  "deleteRun 0 d seg st = Inr st"
| "deleteRun (Suc n) d seg st =
     (case deleteTowards d seg st of Inl e \<Rightarrow> Inl e | Inr st' \<Rightarrow> deleteRun n d seg st')"

section \<open>Traversing a run of text\<close>

text \<open>The concatenated text of a list of segments.\<close>

definition texts :: "state \<Rightarrow> nat list \<Rightarrow> string" where
  "texts st xs = concat (map (\<lambda>x. textStr (heap st x)) xs)"

text \<open>A segment as the data model wants it: allocated, a \<open>TextPiece\<close>, with nonempty text,
  and with a Text node of its own that mirrors the text.\<close>

definition segOk :: "state \<Rightarrow> nat \<Rightarrow> bool" where
  "segOk st x =
     (x < nextRef st \<and> kind (heap st x) = TextPieceK \<and> textStr (heap st x) \<noteq> [] \<and>
      (case domText (heap st x) of None \<Rightarrow> False
       | Some d \<Rightarrow> d < nextDom st \<and> domData st d = textStr (heap st x)))"

text \<open>The cursor is inside the region \<open>p\<close>, in the gap between the segments \<open>ys\<close> on its left
  and \<open>zs\<close> on its right: the children of \<open>p\<close> are the well-formed sequence \<open>ys @ zs\<close> of
  segments, each with its own Text node.\<close>

definition editing :: "state \<Rightarrow> nat \<Rightarrow> nat list \<Rightarrow> nat list \<Rightarrow> bool" where
  "editing st p ys zs =
     (wfChildren st p (ys @ zs) \<and> p < nextRef st \<and>
      pParent (cur st) = Some p \<and> pL (cur st) = lastOpt ys \<and> pR (cur st) = headOpt zs \<and>
      list_all (segOk st) (ys @ zs) \<and>
      distinct (map (\<lambda>x. domText (heap st x)) (ys @ zs)))"

text \<open>A segment's text and its mirror rewritten together.\<close>

definition setText :: "nat \<Rightarrow> nat \<Rightarrow> string \<Rightarrow> state \<Rightarrow> state" where
  "setText f df T st =
     st\<lparr>heap := (heap st)(f := (heap st f)\<lparr>textStr := T\<rparr>), domData := (domData st)(df := T)\<rparr>"

text \<open>Modelled from the spec: the cursor protocol of section 2 (the controller is not in
  src/), "all cursor-driven keystrokes route through segment-level
  moveTowards/selectTowards/deleteTowards calls": a move or a selection step in direction
  \<open>dir\<close> is the call of that method on the cursor's neighbour on side \<open>dir\<close>, which has to be
  a segment.\<close>

datatype call = Move dir | Select dir

definition step :: "call \<Rightarrow> state \<Rightarrow> error + state" where
  "step c st =
     (case c of
        Move d \<Rightarrow>
          (case cdir d (cur st) of None \<Rightarrow> Inl NoSegment
           | Some pc \<Rightarrow> if kind (heap st pc) = TextPieceK then moveTowards d pc st
                        else Inl NoSegment)
      | Select d \<Rightarrow>
          (case cdir d (cur st) of None \<Rightarrow> Inl NoSegment
           | Some pc \<Rightarrow> if kind (heap st pc) = TextPieceK then selectTowards d pc st
                        else Inl NoSegment))"

text \<open>A sequence of such calls, one after the other.\<close>

fun steps :: "call list \<Rightarrow> state \<Rightarrow> error + state" where
  "steps [] st = Inr st"
| "steps (c # cs) st = (case step c st of Inl e \<Rightarrow> Inl e | Inr st' \<Rightarrow> steps cs st')"

fun callDir :: "call \<Rightarrow> dir" where
  "callDir (Move d) = d"
| "callDir (Select d) = d"

text \<open>A sequence of calls fits a run with \<open>l\<close> characters left of the cursor and \<open>r\<close> right of
  it when every call finds a character on its side; \<open>a\<close> says whether there is an
  anticursor, without which a selection step moves nothing.\<close>

fun fits :: "call list \<Rightarrow> bool \<Rightarrow> nat \<Rightarrow> nat \<Rightarrow> bool" where
  "fits [] a l r = True"
| "fits (c # cs) a l r =
     (if callDir c = R
      then 0 < r \<and> (if c = Select R \<and> \<not> a then fits cs a l r else fits cs a (Suc l) (r - 1))
      else 0 < l \<and> (if c = Select L \<and> \<not> a then fits cs a l r else fits cs a (l - 1) (Suc r)))"

text \<open>The document \<open>twoSegDoc\<close> with an anticursor at the cursor's position.\<close>

definition selDoc :: state where
  "selDoc = twoSegDoc\<lparr>cur := (cur twoSegDoc)
     \<lparr>anticursor := Some \<lparr>pParent = Some 1, pL = None, pR = Some 2\<rparr>\<rparr>\<rparr>"

section \<open>Properties\<close>

lemmas doc_defs = emptyDoc_def docWithText_def newTextBlock_def newTextPiece_def alloc_def
  adopt_def upd_def blank_def textCtrlSeq_def Let_def

lemmas fold_defs = textContents_def children_def foldChildren_def foldFrom.simps

subsection \<open>Serialization\<close>

lemma js_replace_global_concat:
  "js_replace_global m repl s = concat (map (\<lambda>c. if m c then repl c else [c]) s)"
  by (induction s) simp_all

lemma escapeContents_spec: "escapeContents s = spec_escape s"
  by (simp add: escapeContents_def spec_escape_def prefix_braces_def double_backslashes_def
      js_replace_global_concat)

lemma textContents_docWithText: "textContents (docWithText ''a{'') 1 = Some ''a{''"
  by (simp add: doc_defs fold_defs)

text \<open>C4: for every text region whose \<open>textContents()\<close> returns, serialization appends to the
  output the control sequence of the region followed by the contents in braces, the contents
  escaped by doubling every backslash first and then prefixing every brace with a backslash;
  when the contents are empty it appends nothing.\<close>

theorem latexRecursive_serialize:
  "textContents st self = Some contents \<Longrightarrow>
   latexRecursive self st ctx =
     Inr (ctx\<lparr>latex := latex ctx @
        (if contents = [] then []
         else ctrlSeq (heap st self) @ ''{'' @ spec_escape contents @ ''}'')\<rparr>)"
  by (simp add: latexRecursive_def checkCursorContextOpen_def checkCursorContextClose_def
      escapeContents_spec Let_def)

theorem latexRecursive_serialize_witness:
  "textContents (docWithText ''a{'') 1 = Some ''a{'' \<and>
   latexRecursive 1 (docWithText ''a{'') \<lparr>latex = []\<rparr> =
     Inr \<lparr>latex = bslash # ''text{a'' @ [bslash] @ ''{}''\<rparr>"
  using latexRecursive_serialize [OF textContents_docWithText, of "\<lparr>latex = []\<rparr>"]
  by (simp add: doc_defs fold_defs spec_escape_def prefix_braces_def double_backslashes_def
      bslash_def)

text \<open>C3, as the specification states it, fails: parsing the serialized body
  \<open>{a\\b\{c\}}\<close> does not give back the text \<open>a\b{c}\<close>.\<close>

theorem parse_roundtrip_counterexample:
  "parseContents (''{a'' @ [bslash, bslash] @ ''b'' @ [bslash] @ ''{c'' @ [bslash] @ ''}}'')
     \<noteq> Inr (Some (''a'' @ [bslash] @ ''b{c}''))"
  by (simp add: parseContents_def parser_def stringP_def optWhitespace_def is_space_def
      is_line_terminator_def doc_defs fold_defs bslash_def)

text \<open>C3, amended: serializing a region containing \<open>a\b{c}\<close> under \<open>\text\<close> produces
  \<open>\text{a\\b\{c\}}\<close>, and parsing that bracketed body back returns the body as it was
  written, \<open>a\\b\{c\}\<close>: \<open>parser\<close> takes the text between the braces without unescaping.\<close>

theorem serialize_then_parse_example:
  "latexRecursive 1 (docWithText (''a'' @ [bslash] @ ''b{c}'')) \<lparr>latex = []\<rparr> =
     Inr \<lparr>latex = bslash # ''text{a'' @ [bslash, bslash] @ ''b'' @ [bslash] @ ''{c''
                     @ [bslash] @ ''}}''\<rparr> \<and>
   parseContents (''{a'' @ [bslash, bslash] @ ''b'' @ [bslash] @ ''{c'' @ [bslash] @ ''}}'') =
     Inr (Some (''a'' @ [bslash, bslash] @ ''b'' @ [bslash] @ ''{c'' @ [bslash] @ ''}''))"
  by (simp add: latexRecursive_def checkCursorContextOpen_def checkCursorContextClose_def
      escapeContents_def parseContents_def parser_def stringP_def optWhitespace_def
      is_space_def is_line_terminator_def doc_defs fold_defs bslash_def)

subsection \<open>Selection without an anticursor\<close>

text \<open>C10: for every segment and direction, when the cursor has no anticursor,
  \<open>selectTowards\<close> returns at once and the whole state (the segment's text, the region's
  segments, the mirror, the cursor) is as before.\<close>

theorem selectTowards_no_anticursor:
  "anticursor (cur st) = None \<Longrightarrow> selectTowards d self st = Inr st"
  by (simp add: selectTowards_def)

theorem selectTowards_no_anticursor_witness:
  "anticursor (cur (docWithText ''ab'')) = None \<and>
   selectTowards R 2 (docWithText ''ab'') = Inr (docWithText ''ab'')"
  using selectTowards_no_anticursor [of "docWithText ''ab''" R 2]
  by (simp add: doc_defs)

subsection \<open>Linked sequences under adoption and removal\<close>

lemma lastOpt_simps [simp]: "lastOpt [] = None" "lastOpt (xs @ [x]) = Some x"
  by (simp_all add: lastOpt_def)

lemma headOpt_simps [simp]: "headOpt [] = None" "headOpt (x # xs) = Some x"
  by (simp_all add: headOpt_def)

lemma headOpt_rev [simp]: "headOpt (rev xs) = lastOpt xs"
  by (simp add: headOpt_def lastOpt_def)

lemma lastOpt_rev [simp]: "lastOpt (rev xs) = headOpt xs"
  by (simp add: headOpt_def lastOpt_def)

lemma lastOpt_Cons: "lastOpt (x # xs) = (if xs = [] then Some x else lastOpt xs)"
  by (cases xs rule: rev_cases) (simp_all add: lastOpt_def)

lemma path_append: "path f p (xs @ ys) q = (\<exists>m. path f p xs m \<and> path f m ys q)"
  by (induction xs arbitrary: p) auto

lemma path_upd_notin: "u \<notin> set xs \<Longrightarrow> path (f(u := v)) p xs q = path f p xs q"
  by (induction xs arbitrary: p) auto

lemma path_start: "path f p xs q \<Longrightarrow> xs \<noteq> [] \<Longrightarrow> p = headOpt xs"
  by (cases xs) auto

lemma path_fold:
  "path (\<lambda>x. sibR (h x)) p xs None \<Longrightarrow> foldFrom h g p acc = Some (foldl g acc xs)"
proof (induction xs arbitrary: p acc)
  case Nil
  then show ?case by (simp add: foldFrom.simps)
next
  case (Cons x xs)
  then have "p = Some x" and "path (\<lambda>x. sibR (h x)) (sibR (h x)) xs None" by simp_all
  with Cons.IH [of "sibR (h x)" "g acc x"] show ?case
    by (subst foldFrom.simps) simp
qed

text \<open>Unlinking x from the middle of a path.\<close>
lemma path_unlink:
  assumes "distinct (ys @ x # zs)" and "path f p (ys @ x # zs) q"
  shows "path (case lastOpt ys of None \<Rightarrow> f | Some l \<Rightarrow> f(l := f x))
              (case lastOpt ys of None \<Rightarrow> f x | Some l \<Rightarrow> p) (ys @ zs) q"
proof (cases ys rule: rev_cases)
  case Nil
  with assms show ?thesis by simp
next
  case (snoc ys' l)
  from assms snoc have 1: "path f p ys' (Some l)" and 2: "f l = Some x" and 3: "path f (f x) zs q"
    by (auto simp: path_append)
  from assms snoc have d: "l \<notin> set ys'" "l \<notin> set zs" by auto
  have "path (f(l := f x)) p ys' (Some l)" using 1 d by (simp add: path_upd_notin)
  moreover have "path (f(l := f x)) (f x) zs q" using 3 d by (simp add: path_upd_notin)
  ultimately show ?thesis using snoc by (auto simp: path_append)
qed

text \<open>Linking n into the middle of a path.\<close>
lemma path_link:
  assumes "n \<notin> set (ys @ zs)" and "distinct (ys @ zs)" and "path f p (ys @ zs) q"
  shows "path (case lastOpt ys of None \<Rightarrow> f(n := (case zs of [] \<Rightarrow> q | z # _ \<Rightarrow> Some z))
                | Some l \<Rightarrow> (f(n := (case zs of [] \<Rightarrow> q | z # _ \<Rightarrow> Some z)))(l := Some n))
              (case lastOpt ys of None \<Rightarrow> Some n | Some l \<Rightarrow> p) (ys @ n # zs) q"
proof -
  let ?v = "(case zs of [] \<Rightarrow> q | z # _ \<Rightarrow> Some z)"
  from assms(3) obtain m where m: "path f p ys m" "path f m zs q" by (auto simp: path_append)
  have mv: "m = ?v" using m(2) by (cases zs) auto
  have tailp: "path (f(n := ?v)) ?v zs q" using m(2) mv assms(1) by (simp add: path_upd_notin)
  show ?thesis
  proof (cases ys rule: rev_cases)
    case Nil
    with tailp show ?thesis by simp
  next
    case (snoc ys' l)
    from m(1) snoc have 1: "path f p ys' (Some l)" and 2: "f l = m" by (auto simp: path_append)
    from assms snoc have d: "l \<notin> set ys'" "l \<notin> set zs" "n \<notin> set ys'" "n \<noteq> l" by auto
    have a: "path ((f(n := ?v))(l := Some n)) p ys' (Some l)"
      using 1 d by (simp add: path_upd_notin)
    have b: "path ((f(n := ?v))(l := Some n)) ?v zs q"
      using tailp d by (simp add: path_upd_notin)
    show ?thesis using snoc a b d by (auto simp: path_append)
  qed
qed


lemma path_end_None: "path f p xs None \<Longrightarrow> p = headOpt xs"
  by (cases xs) auto

lemma upd_fields [simp]:
  "heap (upd st r f) = (heap st)(r := f (heap st r))"
  "nextRef (upd st r f) = nextRef st"
  "domData (upd st r f) = domData st"
  "nextDom (upd st r f) = nextDom st"
  "cur (upd st r f) = cur st"
  "aria (upd st r f) = aria st"
  by (simp_all add: upd_def)

lemma adopt_fields [simp]:
  "nextRef (adopt st n p wl wr) = nextRef st"
  "domData (adopt st n p wl wr) = domData st"
  "nextDom (adopt st n p wl wr) = nextDom st"
  "cur (adopt st n p wl wr) = cur st"
  "aria (adopt st n p wl wr) = aria st"
  by (simp_all add: adopt_def Let_def split: option.splits)

lemma adopt_sibR:
  "(\<lambda>x. sibR (heap (adopt st n p wl wr) x)) =
     (case wl of None \<Rightarrow> (\<lambda>x. sibR (heap st x))(n := wr)
      | Some l \<Rightarrow> ((\<lambda>x. sibR (heap st x))(n := wr))(l := Some n))"
  by (auto simp: adopt_def Let_def fun_eq_iff split: option.splits)

lemma adopt_sibL:
  "(\<lambda>x. sibL (heap (adopt st n p wl wr) x)) =
     (case wr of None \<Rightarrow> (\<lambda>x. sibL (heap st x))(n := wl)
      | Some r \<Rightarrow> ((\<lambda>x. sibL (heap st x))(n := wl))(r := Some n))"
  by (auto simp: adopt_def Let_def fun_eq_iff split: option.splits)

lemma adopt_endL:
  "endL (heap (adopt st n p wl wr) q) = (if wl = None \<and> q = p then Some n else endL (heap st q))"
  by (auto simp: adopt_def Let_def split: option.splits)

lemma adopt_endR:
  "endR (heap (adopt st n p wl wr) q) = (if wr = None \<and> q = p then Some n else endR (heap st q))"
  by (auto simp: adopt_def Let_def split: option.splits)

lemma adopt_parent:
  "parent (heap (adopt st n p wl wr) q) = (if q = n then Some p else parent (heap st q))"
  by (auto simp: adopt_def Let_def split: option.splits)

lemma adopt_data [simp]:
  "textStr (heap (adopt st n p wl wr) q) = textStr (heap st q)"
  "kind (heap (adopt st n p wl wr) q) = kind (heap st q)"
  "domText (heap (adopt st n p wl wr) q) = domText (heap st q)"
  "spanKids (heap (adopt st n p wl wr) q) = spanKids (heap st q)"
  "ctrlSeq (heap (adopt st n p wl wr) q) = ctrlSeq (heap st q)"
  "replacedText (heap (adopt st n p wl wr) q) = replacedText (heap st q)"
  by (auto simp: adopt_def Let_def split: option.splits)

lemma disown_fields [simp]:
  "nextRef (disown st x) = nextRef st"
  "domData (disown st x) = domData st"
  "nextDom (disown st x) = nextDom st"
  "cur (disown st x) = cur st"
  "aria (disown st x) = aria st"
  by (simp_all add: disown_def Let_def split: option.splits)

lemma disown_sibR:
  "parent (heap st x) = Some p \<Longrightarrow>
   (\<lambda>y. sibR (heap (disown st x) y)) =
     (case sibL (heap st x) of None \<Rightarrow> (\<lambda>y. sibR (heap st y))
      | Some l \<Rightarrow> (\<lambda>y. sibR (heap st y))(l := sibR (heap st x)))"
  by (auto simp: disown_def Let_def fun_eq_iff split: option.splits)

lemma disown_sibL:
  "parent (heap st x) = Some p \<Longrightarrow>
   (\<lambda>y. sibL (heap (disown st x) y)) =
     (case sibR (heap st x) of None \<Rightarrow> (\<lambda>y. sibL (heap st y))
      | Some r \<Rightarrow> (\<lambda>y. sibL (heap st y))(r := sibL (heap st x)))"
  by (auto simp: disown_def Let_def fun_eq_iff split: option.splits)

lemma disown_endL:
  "parent (heap st x) = Some p \<Longrightarrow>
   endL (heap (disown st x) q) =
     (if sibL (heap st x) = None \<and> q = p then sibR (heap st x) else endL (heap st q))"
  by (auto simp: disown_def Let_def split: option.splits)

lemma disown_endR:
  "parent (heap st x) = Some p \<Longrightarrow>
   endR (heap (disown st x) q) =
     (if sibR (heap st x) = None \<and> q = p then sibL (heap st x) else endR (heap st q))"
  by (auto simp: disown_def Let_def split: option.splits)

lemma disown_data [simp]:
  "parent (heap (disown st x) q) = parent (heap st q)"
  "textStr (heap (disown st x) q) = textStr (heap st q)"
  "kind (heap (disown st x) q) = kind (heap st q)"
  "domText (heap (disown st x) q) = domText (heap st q)"
  "spanKids (heap (disown st x) q) = spanKids (heap st q)"
  "ctrlSeq (heap (disown st x) q) = ctrlSeq (heap st q)"
  "replacedText (heap (disown st x) q) = replacedText (heap st q)"
  by (auto simp: disown_def Let_def split: option.splits)

text \<open>The removed node keeps its own sibling pointers as long as it is not its own neighbour.\<close>
lemma disown_self:
  "sibL (heap st x) \<noteq> Some x \<Longrightarrow> sibR (heap st x) \<noteq> Some x \<Longrightarrow>
   sibL (heap (disown st x) x) = sibL (heap st x) \<and> sibR (heap (disown st x) x) = sibR (heap st x)"
  by (auto simp: disown_def Let_def split: option.splits)

lemma wf_member:
  assumes "wfChildren st p (ys @ x # zs)"
  shows "sibR (heap st x) = headOpt zs" and "sibL (heap st x) = lastOpt ys"
    and "parent (heap st x) = Some p"
proof -
  from assms have f: "path (\<lambda>x. sibR (heap st x)) (endL (heap st p)) (ys @ x # zs) None"
    and b: "path (\<lambda>x. sibL (heap st x)) (endR (heap st p)) (rev zs @ x # rev ys) None"
    and pa: "list_all (\<lambda>x. parent (heap st x) = Some p) (ys @ x # zs)"
    by (simp_all add: wfChildren_def)
  from f have "path (\<lambda>x. sibR (heap st x)) (sibR (heap st x)) zs None"
    by (auto simp: path_append)
  then show "sibR (heap st x) = headOpt zs" by (rule path_end_None)
  from b have "path (\<lambda>x. sibL (heap st x)) (sibL (heap st x)) (rev ys) None"
    by (auto simp: path_append)
  then have "sibL (heap st x) = headOpt (rev ys)" by (rule path_end_None)
  then show "sibL (heap st x) = lastOpt ys" by simp
  from pa show "parent (heap st x) = Some p" by simp
qed

lemma wfChildren_adopt:
  assumes wf: "wfChildren st p (ys @ zs)" and fresh: "n \<notin> set (ys @ zs)"
  shows "wfChildren (adopt st n p (lastOpt ys) (headOpt zs)) p (ys @ n # zs)"
proof -
  from wf have d: "distinct (ys @ zs)"
    and f: "path (\<lambda>x. sibR (heap st x)) (endL (heap st p)) (ys @ zs) None"
    and b: "path (\<lambda>x. sibL (heap st x)) (endR (heap st p)) (rev zs @ rev ys) None"
    and pa: "list_all (\<lambda>x. parent (heap st x) = Some p) (ys @ zs)"
    by (simp_all add: wfChildren_def)
  have hz: "(case zs of [] \<Rightarrow> None | z # _ \<Rightarrow> Some z) = headOpt zs" by (simp add: headOpt_def)
  have hy: "(case rev ys of [] \<Rightarrow> None | z # _ \<Rightarrow> Some z) = lastOpt ys" by (simp add: lastOpt_def)
  from path_link [OF fresh d f]
  have F: "path (\<lambda>x. sibR (heap (adopt st n p (lastOpt ys) (headOpt zs)) x))
             (endL (heap (adopt st n p (lastOpt ys) (headOpt zs)) p)) (ys @ n # zs) None"
    by (simp add: adopt_sibR adopt_endL hz split: option.splits)
  have fresh': "n \<notin> set (rev zs @ rev ys)" using fresh by auto
  have d': "distinct (rev zs @ rev ys)" using d by auto
  from path_link [OF fresh' d' b]
  have B: "path (\<lambda>x. sibL (heap (adopt st n p (lastOpt ys) (headOpt zs)) x))
             (endR (heap (adopt st n p (lastOpt ys) (headOpt zs)) p)) (rev zs @ n # rev ys) None"
    by (simp add: adopt_sibL adopt_endR hy split: option.splits)
  have P: "list_all (\<lambda>x. parent (heap (adopt st n p (lastOpt ys) (headOpt zs)) x) = Some p)
             (ys @ n # zs)"
    using pa by (auto simp: adopt_parent list_all_iff)
  show ?thesis using d fresh F B P by (simp add: wfChildren_def)
qed

lemma wfChildren_disown:
  assumes wf: "wfChildren st p (ys @ x # zs)"
  shows "wfChildren (disown st x) p (ys @ zs)"
proof -
  note m = wf_member [OF wf]
  from wf have d: "distinct (ys @ x # zs)"
    and f: "path (\<lambda>x. sibR (heap st x)) (endL (heap st p)) (ys @ x # zs) None"
    and b: "path (\<lambda>x. sibL (heap st x)) (endR (heap st p)) (rev zs @ x # rev ys) None"
    and pa: "list_all (\<lambda>x. parent (heap st x) = Some p) (ys @ x # zs)"
    by (simp_all add: wfChildren_def)
  from path_unlink [OF d f]
  have F: "path (\<lambda>y. sibR (heap (disown st x) y)) (endL (heap (disown st x) p)) (ys @ zs) None"
    by (simp add: disown_sibR [OF m(3)] disown_endL [OF m(3)] m split: option.splits)
  have d': "distinct (rev zs @ x # rev ys)" using d by auto
  from path_unlink [OF d' b]
  have B: "path (\<lambda>y. sibL (heap (disown st x) y)) (endR (heap (disown st x) p))
             (rev zs @ rev ys) None"
    by (simp add: disown_sibL [OF m(3)] disown_endR [OF m(3)] m split: option.splits)
  show ?thesis using d F B pa by (simp add: wfChildren_def)
qed

lemma foldl_snoc: "foldl (\<lambda>acc x. acc @ [x]) a xs = a @ xs"
  by (induction xs arbitrary: a) simp_all

lemma foldl_text: "foldl (\<lambda>t c. t @ g c) a xs = a @ concat (map g xs)"
  by (induction xs arbitrary: a) simp_all

lemma wfChildren_children:
  assumes "wfChildren st p xs"
  shows "children st p = Some xs"
proof -
  from assms have "path (\<lambda>x. sibR (heap st x)) (endL (heap st p)) xs None"
    by (simp add: wfChildren_def)
  from path_fold [OF this, of "\<lambda>acc x. acc @ [x]" "[]"] show ?thesis
    by (simp add: children_def foldChildren_def foldl_snoc)
qed

lemma wfChildren_textContents:
  assumes "wfChildren st p xs"
  shows "textContents st p = Some (concat (map (\<lambda>x. textStr (heap st x)) xs))"
proof -
  from assms have "path (\<lambda>x. sibR (heap st x)) (endL (heap st p)) xs None"
    by (simp add: wfChildren_def)
  from path_fold [OF this, of "\<lambda>text child. text @ textStr (heap st child)" "[]"]
  show ?thesis
    by (simp add: textContents_def foldChildren_def foldl_text)
qed

lemma wfChildren_isEmpty:
  "wfChildren st p xs \<Longrightarrow> isEmpty (heap st p) = (xs = [])"
  by (cases xs rule: rev_cases) (auto simp: wfChildren_def isEmpty_def path_append)

subsection \<open>Frames\<close>

lemma wfChildren_frame:
  assumes "\<And>x. sibL (heap st' x) = sibL (heap st x)"
    and "\<And>x. sibR (heap st' x) = sibR (heap st x)"
    and "\<And>x. parent (heap st' x) = parent (heap st x)"
    and "endL (heap st' p) = endL (heap st p)"
    and "endR (heap st' p) = endR (heap st p)"
  shows "wfChildren st' p xs = wfChildren st p xs"
  using assms by (simp add: wfChildren_def)

lemma js_slice_tl: "1 < length t \<Longrightarrow> js_slice_from t 1 = tl t"
  by (simp add: js_slice_from_def js_slice_def drop_Suc)

lemma js_slice_butlast: "1 < length t \<Longrightarrow> js_slice t 0 (-1) = butlast t"
  by (simp add: js_slice_def butlast_conv_take nat_diff_distrib')

lemma cdir_set_cdir [simp]:
  "cdir d (set_cdir d v c) = v"
  "cdir (opp d) (set_cdir d v c) = cdir (opp d) c"
  "cdir d (set_cdir (opp d) v c) = cdir d c"
  by (cases d; simp)+

lemma pParent_set_cdir [simp]: "pParent (set_cdir d v c) = pParent c"
  by (cases d) simp_all

lemma anticursor_set_cdir [simp]: "anticursor (set_cdir d v c) = anticursor c"
  by (cases d) simp_all

lemma domRemove_fields [simp]:
  "nextRef (domRemove st x) = nextRef st"
  "domData (domRemove st x) = domData st"
  "nextDom (domRemove st x) = nextDom st"
  "cur (domRemove st x) = cur st"
  "aria (domRemove st x) = aria st"
  "sibL (heap (domRemove st x) q) = sibL (heap st q)"
  "sibR (heap (domRemove st x) q) = sibR (heap st q)"
  "endL (heap (domRemove st x) q) = endL (heap st q)"
  "endR (heap (domRemove st x) q) = endR (heap st q)"
  "parent (heap (domRemove st x) q) = parent (heap st q)"
  "textStr (heap (domRemove st x) q) = textStr (heap st q)"
  "kind (heap (domRemove st x) q) = kind (heap st q)"
  "domText (heap (domRemove st x) q) = domText (heap st q)"
  by (auto simp: domRemove_def split: option.splits)

lemma wfChildren_domRemove [simp]: "wfChildren (domRemove st x) p xs = wfChildren st p xs"
  by (rule wfChildren_frame) simp_all

lemma wfChildren_remove:
  "wfChildren st p (ys @ x # zs) \<Longrightarrow> wfChildren (remove st x) p (ys @ zs)"
  unfolding remove_def by (rule wfChildren_disown) simp

lemma remove_fields [simp]:
  "nextRef (remove st x) = nextRef st"
  "domData (remove st x) = domData st"
  "nextDom (remove st x) = nextDom st"
  "cur (remove st x) = cur st"
  "aria (remove st x) = aria st"
  "parent (heap (remove st x) q) = parent (heap st q)"
  "textStr (heap (remove st x) q) = textStr (heap st q)"
  "kind (heap (remove st x) q) = kind (heap st q)"
  "domText (heap (remove st x) q) = domText (heap st q)"
  by (simp_all add: remove_def)

lemma wf_not_self:
  assumes "wfChildren st p (ys @ x # zs)"
  shows "sibL (heap st x) \<noteq> Some x" and "sibR (heap st x) \<noteq> Some x"
proof -
  from assms have d: "distinct (ys @ x # zs)" by (simp add: wfChildren_def)
  have "lastOpt ys \<noteq> Some x" using d by (cases ys rule: rev_cases) auto
  then show "sibL (heap st x) \<noteq> Some x" by (simp add: wf_member(2) [OF assms])
  have "headOpt zs \<noteq> Some x" using d by (cases zs) auto
  then show "sibR (heap st x) \<noteq> Some x" by (simp add: wf_member(1) [OF assms])
qed

lemma remove_self:
  assumes "wfChildren st p (ys @ x # zs)"
  shows "sib d (heap (remove st x) x) = sib d (heap st x)"
proof -
  have "sibL (heap (domRemove st x) x) \<noteq> Some x" "sibR (heap (domRemove st x) x) \<noteq> Some x"
    using wf_not_self [OF assms] by simp_all
  from disown_self [OF this] show ?thesis by (cases d) (simp_all add: remove_def)
qed

subsection \<open>Deleting one character\<close>

lemma deleteTowards_strip:
  assumes t: "textStr (heap st self) = t" and l: "1 < length t"
    and m: "domText (heap st self) = Some dn" "domData st dn = t"
  shows "deleteTowards d self st =
             Inr (st\<lparr>heap := (heap st)(self := (heap st self)
                               \<lparr>textStr := (if d = R then tl t else butlast t)\<rparr>),
                     domData := (domData st)(dn := (if d = R then tl t else butlast t)),
                     aria := aria st @ [if d = R then [hd t] else [last t]]\<rparr>)"
proof -
  have hd: "t ! 0 = hd t" and lst: "t ! (length t - 1) = last t"
    using l by (cases t; simp add: last_conv_nth)+
  have dropt: "drop (Suc 0) t = tl t" by (simp add: drop_Suc)
  have bl: "take (length t - Suc 0) t = butlast t" by (simp add: butlast_conv_take)
  have ne: "t \<noteq> []" using l by auto
  show ?thesis
    using t l m hd lst ne
    by (simp add: deleteTowards_def oneText_def deleteData_def queue_def upd_def
        js_slice_tl js_slice_butlast dropt bl nat_diff_distrib')
qed

lemma deleteTowards_last:
  assumes wf: "wfChildren st p (ys @ self # zs)" and t: "textStr (heap st self) = t"
    and l: "length t = 1"
  shows "\<exists>st'. deleteTowards d self st = Inr st' \<and>
              wfChildren st' p (ys @ zs) \<and>
              cdir d (cur st') = sib d (heap st self) \<and>
              cdir (opp d) (cur st') = cdir (opp d) (cur st) \<and>
              pParent (cur st') = pParent (cur st) \<and>
              (\<forall>x. textStr (heap st' x) = textStr (heap st x)) \<and>
              aria st' = aria st @ [t]"
proof -
  let ?st1 = "remove st self"
  let ?st' = "queue (textStr (heap ?st1 self))
                (?st1\<lparr>cur := set_cdir d (sib d (heap ?st1 self)) (cur ?st1)\<rparr>)"
  have eq: "deleteTowards d self st = Inr ?st'"
    using l t by (simp add: deleteTowards_def Let_def)
  have w: "wfChildren ?st' p (ys @ zs)"
    using wfChildren_remove [OF wf]
    by (simp add: queue_def wfChildren_def)
  show ?thesis
    using eq w t by (simp add: queue_def remove_self [OF wf])
qed

text \<open>C5: for every segment \<open>self\<close> of a well-formed child sequence and every direction:
  when the text is longer than one character (and mirrored by the segment's Text node),
  \<open>deleteTowards\<close> strips exactly the first character for \<open>R\<close> and the last one for \<open>L\<close>, from
  the text and from the mirror, reports it to the accessibility queue, and changes nothing
  else; when the text has one character, the segment leaves its parent's child sequence, the
  cursor's neighbour on side \<open>dir\<close> becomes what was the segment's neighbour on that side, and
  the text is reported.\<close>

theorem deleteTowards_effect:
  assumes wf: "wfChildren st p (ys @ self # zs)" and t: "textStr (heap st self) = t"
  shows "(1 < length t \<and> domText (heap st self) = Some dn \<and> domData st dn = t \<longrightarrow>
           deleteTowards d self st =
             Inr (st\<lparr>heap := (heap st)(self := (heap st self)
                               \<lparr>textStr := (if d = R then tl t else butlast t)\<rparr>),
                     domData := (domData st)(dn := (if d = R then tl t else butlast t)),
                     aria := aria st @ [if d = R then [hd t] else [last t]]\<rparr>)) \<and>
         (length t = 1 \<longrightarrow>
           (\<exists>st'. deleteTowards d self st = Inr st' \<and>
              wfChildren st' p (ys @ zs) \<and>
              cdir d (cur st') = sib d (heap st self) \<and>
              cdir (opp d) (cur st') = cdir (opp d) (cur st) \<and>
              pParent (cur st') = pParent (cur st) \<and>
              (\<forall>x. textStr (heap st' x) = textStr (heap st x)) \<and>
              aria st' = aria st @ [t]))"
  using deleteTowards_strip [OF t, of dn d] deleteTowards_last [OF wf t, of d] by blast

lemma wf_twoSegDoc: "wfChildren twoSegDoc 1 [2, 3]"
  by (simp add: twoSegDoc_def wfChildren_def blank_def)

theorem deleteTowards_effect_witness:
  "wfChildren twoSegDoc 1 ([] @ 2 # [3]) \<and> textStr (heap twoSegDoc 2) = ''ab'' \<and>
   1 < length ''ab'' \<and> domText (heap twoSegDoc 2) = Some 0 \<and> domData twoSegDoc 0 = ''ab'' \<and>
   deleteTowards R 2 twoSegDoc =
     Inr (twoSegDoc\<lparr>heap := (heap twoSegDoc)(2 := (heap twoSegDoc 2)\<lparr>textStr := ''b''\<rparr>),
            domData := (domData twoSegDoc)(0 := ''b''), aria := [''a'']\<rparr>) \<and>
   wfChildren twoSegDoc 1 ([2] @ 3 # []) \<and> textStr (heap twoSegDoc 3) = ''c'' \<and>
   length ''c'' = 1 \<and>
   (\<exists>st'. deleteTowards L 3 twoSegDoc = Inr st' \<and> wfChildren st' 1 [2] \<and>
      pL (cur st') = Some 2 \<and> aria st' = [''c''])"
proof -
  have w1: "wfChildren twoSegDoc 1 ([] @ 2 # [3])" and w2: "wfChildren twoSegDoc 1 ([2] @ 3 # [])"
    using wf_twoSegDoc by simp_all
  have t1: "textStr (heap twoSegDoc 2) = ''ab''" and t2: "textStr (heap twoSegDoc 3) = ''c''"
    by (simp_all add: twoSegDoc_def)
  have m: "domText (heap twoSegDoc 2) = Some 0" "domData twoSegDoc 0 = ''ab''"
    by (simp_all add: twoSegDoc_def)
  have s: "sibL (heap twoSegDoc 3) = Some 2" "aria twoSegDoc = []" by (simp_all add: twoSegDoc_def)
  from deleteTowards_effect [OF w1 t1, of 0 R] deleteTowards_effect [OF w2 t2, of 0 L]
  show ?thesis using w1 w2 t1 t2 m s by auto
qed

subsection \<open>Splitting a segment\<close>

lemma path_cong_set: "(\<And>x. x \<in> set xs \<Longrightarrow> f x = g x) \<Longrightarrow> path f p xs q = path g p xs q"
  by (induction xs arbitrary: p) auto

lemma wfChildren_frame_set:
  assumes "\<And>x. x \<in> set xs \<Longrightarrow> sibL (heap st' x) = sibL (heap st x)"
    and "\<And>x. x \<in> set xs \<Longrightarrow> sibR (heap st' x) = sibR (heap st x)"
    and "\<And>x. x \<in> set xs \<Longrightarrow> parent (heap st' x) = parent (heap st x)"
    and "endL (heap st' p) = endL (heap st p)"
    and "endR (heap st' p) = endR (heap st p)"
  shows "wfChildren st' p xs = wfChildren st p xs"
proof -
  have "path (\<lambda>x. sibR (heap st' x)) (endL (heap st p)) xs None
        = path (\<lambda>x. sibR (heap st x)) (endL (heap st p)) xs None"
    by (rule path_cong_set) (simp add: assms)
  moreover have "path (\<lambda>x. sibL (heap st' x)) (endR (heap st p)) (rev xs) None
        = path (\<lambda>x. sibL (heap st x)) (endR (heap st p)) (rev xs) None"
    by (rule path_cong_set) (simp add: assms)
  moreover have "list_all (\<lambda>x. parent (heap st' x) = Some p) xs
        = list_all (\<lambda>x. parent (heap st x) = Some p) xs"
    by (simp add: list_all_iff assms)
  ultimately show ?thesis by (simp add: wfChildren_def assms)
qed

lemma wfChildren_alloc:
  "nextRef st \<notin> set xs \<Longrightarrow> nextRef st \<noteq> p \<Longrightarrow>
   wfChildren (snd (alloc st n)) p xs = wfChildren st p xs"
  by (rule wfChildren_frame_set) (auto simp: alloc_def)

lemma js_slice_take: "0 \<le> k \<Longrightarrow> k \<le> int (length t) \<Longrightarrow> js_slice t 0 k = take (nat k) t"
  by (simp add: js_slice_def)

lemma js_slice_drop: "0 \<le> k \<Longrightarrow> k \<le> int (length t) \<Longrightarrow> js_slice_from t k = drop (nat k) t"
  by (simp add: js_slice_from_def js_slice_def)

lemma newTextPiece_fields [simp]:
  "fst (newTextPiece st text) = nextRef st"
  "nextRef (snd (newTextPiece st text)) = Suc (nextRef st)"
  "domData (snd (newTextPiece st text)) = domData st"
  "nextDom (snd (newTextPiece st text)) = nextDom st"
  "cur (snd (newTextPiece st text)) = cur st"
  "aria (snd (newTextPiece st text)) = aria st"
  "heap (snd (newTextPiece st text)) =
     (heap st)(nextRef st := (blank TextPieceK)\<lparr>textStr := text\<rparr>)"
  by (simp_all add: newTextPiece_def alloc_def)

text \<open>C7: for every segment \<open>self\<close> of a well-formed child sequence whose text \<open>t\<close> (mirrored by
  its Text node) has length \<open>n\<close>, and every offset \<open>0 < k < n\<close>: \<open>splitRight\<close> returns a new
  segment (the next free handle, none of the existing children); the receiver keeps the
  characters before \<open>k\<close>, the new segment holds those from \<open>k\<close> on, it is linked right after
  the receiver in the same parent, the two texts concatenated are \<open>t\<close>, and the mirror is split
  at the same offset.\<close>

theorem splitRight_effect:
  assumes wf: "wfChildren st p (ys @ self # zs)"
    and t: "textStr (heap st self) = t"
    and k: "0 < k" "k < int (length t)"
    and dom: "domText (heap st self) = Some d" "domData st d = t" "d \<noteq> nextDom st"
    and fresh: "nextRef st \<notin> set (ys @ self # zs)" "nextRef st \<noteq> p"
  shows "\<exists>st'. splitRight self k st = Inr (nextRef st, st') \<and>
           textStr (heap st' self) = take (nat k) t \<and>
           textStr (heap st' (nextRef st)) = drop (nat k) t \<and>
           textStr (heap st' self) @ textStr (heap st' (nextRef st)) = t \<and>
           kind (heap st' (nextRef st)) = TextPieceK \<and>
           wfChildren st' p (ys @ self # nextRef st # zs) \<and>
           domData st' d = take (nat k) t \<and>
           domText (heap st' (nextRef st)) = Some (nextDom st) \<and>
           domData st' (nextDom st) = drop (nat k) t"
proof -
  let ?n = "nextRef st"
  let ?st1 = "snd (newTextPiece st (js_slice_from t k))"
  let ?st2 = "adopt ?st1 ?n p (Some self) (headOpt zs)"
  have ne: "self \<noteq> ?n" using fresh by auto
  have h1: "heap ?st1 self = heap st self" using ne by (simp add: newTextPiece_def alloc_def)
  have wf1: "wfChildren ?st1 p ((ys @ [self]) @ zs)"
    using wf fresh unfolding newTextPiece_def by (simp add: wfChildren_alloc)
  have "?n \<notin> set ((ys @ [self]) @ zs)" using fresh by auto
  from wfChildren_adopt [OF wf1 this]
  have wf2: "wfChildren ?st2 p (ys @ self # ?n # zs)" by simp
  have par: "parent (heap ?st1 self) = Some p" and sr: "sibR (heap ?st1 self) = headOpt zs"
    using wf_member [OF wf] h1 by simp_all
  have par2: "parent (heap ?st2 self) = Some p" using par ne by (simp add: adopt_parent)
  have dt2: "domText (heap ?st2 self) = Some d" using dom h1 by simp
  let ?st3 = "upd (?st2\<lparr>domData := (domData st)(d := take (nat k) t, nextDom st := drop (nat k) t),
                        nextDom := Suc (nextDom st)\<rparr>) p
                (\<lambda>n. n\<lparr>spanKids := map_option (insertAfter (TextNode d) (TextNode (nextDom st)))
                        (spanKids n)\<rparr>)"
  have sp: "splitText ?st2 (Some p) d k = Inr (nextDom st, ?st3)"
    using k dom by (simp add: splitText_def Let_def)
  let ?st5 = "upd (setDOM ?st3 ?n (nextDom st)) self (\<lambda>n. n\<lparr>textStr := js_slice (textStr n) 0 k\<rparr>)"
  have res: "splitRight self k st = Inr (?n, ?st5)"
    using t par sr par2 dt2 sp h1
    by (simp add: splitRight_def oneText_def Let_def split_beta)
  have "wfChildren ?st5 p (ys @ self # ?n # zs) = wfChildren ?st2 p (ys @ self # ?n # zs)"
    by (rule wfChildren_frame) (simp_all add: setDOM_def)
  with wf2 have wf5: "wfChildren ?st5 p (ys @ self # ?n # zs)" by simp
  have a: "textStr (heap ?st5 self) = take (nat k) t"
    using t ne k by (auto simp: setDOM_def js_slice_take)
  have b: "textStr (heap ?st5 ?n) = drop (nat k) t"
    using t k ne by (auto simp: setDOM_def js_slice_drop)
  have c: "kind (heap ?st5 ?n) = TextPieceK" by (simp add: setDOM_def blank_def)
  have e: "domData ?st5 d = take (nat k) t" "domData ?st5 (nextDom st) = drop (nat k) t"
    using dom by (simp_all add: setDOM_def)
  have f: "domText (heap ?st5 ?n) = Some (nextDom st)" using ne by (simp add: setDOM_def)
  show ?thesis using res wf5 a b c e f by simp
qed

theorem splitRight_effect_witness:
  "wfChildren twoSegDoc 1 ([] @ 2 # [3]) \<and> textStr (heap twoSegDoc 2) = ''ab'' \<and>
   (0::int) < 1 \<and> (1::int) < int (length ''ab'') \<and>
   domText (heap twoSegDoc 2) = Some 0 \<and> domData twoSegDoc 0 = ''ab'' \<and>
   0 \<noteq> nextDom twoSegDoc \<and> nextRef twoSegDoc \<notin> set ([] @ 2 # [3]) \<and> nextRef twoSegDoc \<noteq> 1 \<and>
   (\<exists>st'. splitRight 2 1 twoSegDoc = Inr (4, st') \<and>
      textStr (heap st' 2) = ''a'' \<and> textStr (heap st' 4) = ''b'' \<and>
      wfChildren st' 1 [2, 4, 3] \<and> domData st' 0 = ''a'' \<and> domData st' 2 = ''b'')"
proof -
  have w1: "wfChildren twoSegDoc 1 ([] @ 2 # [3])" using wf_twoSegDoc by simp
  have t1: "textStr (heap twoSegDoc 2) = ''ab''" by (simp add: twoSegDoc_def)
  have k: "(0::int) < 1" "(1::int) < int (length ''ab'')" by simp_all
  have m: "domText (heap twoSegDoc 2) = Some 0" "domData twoSegDoc 0 = ''ab''"
    "0 \<noteq> nextDom twoSegDoc"
    by (simp_all add: twoSegDoc_def)
  have f: "nextRef twoSegDoc \<notin> set ([] @ 2 # [3])" "nextRef twoSegDoc \<noteq> 1"
    by (simp_all add: twoSegDoc_def)
  have n: "nextRef twoSegDoc = 4" "nextDom twoSegDoc = 2" by (simp_all add: twoSegDoc_def)
  from splitRight_effect [OF w1 t1 k m f]
  show ?thesis using w1 t1 m f n by auto
qed

subsection \<open>The end of an edit\<close>

lemma normalize_text_Some:
  "a \<notin> set ds \<Longrightarrow>
   fst (normalize (map TextNode ds) (Some a) dat) = [] \<and>
   snd (normalize (map TextNode ds) (Some a) dat) a = dat a @ concat (map dat ds)"
  by (induction ds arbitrary: dat) auto

lemma normalize_text_None:
  "distinct ds \<Longrightarrow> concat (map dat ds) \<noteq> [] \<Longrightarrow>
   \<exists>d0 dat'. normalize (map TextNode ds) None dat = ([TextNode d0], dat') \<and>
        dat' d0 = concat (map dat ds)"
proof (induction ds)
  case Nil
  then show ?case by simp
next
  case (Cons d ds)
  show ?case
  proof (cases "dat d = []")
    case True
    with Cons show ?thesis by simp
  next
    case False
    from Cons.prems have "d \<notin> set ds" by simp
    from normalize_text_Some [OF this, of dat] False show ?thesis
      by (auto simp: split_beta Let_def)
  qed
qed

lemma wfChildren_empty: "wfChildren st p [] = (endL (heap st p) = None \<and> endR (heap st p) = None)"
  by (auto simp: wfChildren_def)

lemma blur_removes_empty:
  assumes tc: "textContents st self = Some []" and wf: "wfChildren st q (ys @ self # zs)"
  shows "\<exists>st'. blur self True st = Inr st' \<and>
         wfChildren st' q (ys @ zs) \<and>
         pL (cur st') = (if pL (cur st) = Some self then sibL (heap st self) else pL (cur st)) \<and>
         pR (cur st') = (if pL (cur st) \<noteq> Some self \<and> pR (cur st) = Some self
                         then sibR (heap st self) else pR (cur st))"
proof -
  let ?st1 = "remove st self"
  let ?st' = "(if pL (cur ?st1) = Some self
                       then ?st1\<lparr>cur := (cur ?st1)\<lparr>pL := sibL (heap ?st1 self)\<rparr>\<rparr>
                       else if pR (cur ?st1) = Some self
                       then ?st1\<lparr>cur := (cur ?st1)\<lparr>pR := sibR (heap ?st1 self)\<rparr>\<rparr>
                       else ?st1)"
  have eq: "blur self True st = Inr ?st'" using tc by (simp add: blur_def Let_def)
  have w: "wfChildren ?st' q (ys @ zs)"
    using wfChildren_remove [OF wf] by (simp add: wfChildren_def)
  have sl: "sibL (heap ?st1 self) = sibL (heap st self)" using remove_self [OF wf, of L] by simp
  have sr: "sibR (heap ?st1 self) = sibR (heap st self)" using remove_self [OF wf, of R] by simp
  show ?thesis using eq w sl sr by simp
qed

lemma blur_fuses:
  assumes wf: "wfChildren st self xs"
    and ne: "concat (map (\<lambda>x. textStr (heap st x)) xs) \<noteq> []"
    and sp: "spanKids (heap st self) = Some (map TextNode ds)" and di: "distinct ds"
    and mi: "concat (map (domData st) ds) = concat (map (\<lambda>x. textStr (heap st x)) xs)"
    and al: "list_all (\<lambda>x. x < nextRef st) xs"
  shows "\<exists>st'. blur self True st = Inr st' \<and>
         wfChildren st' self [nextRef st] \<and>
         nextRef st \<notin> set xs \<and>
         kind (heap st' (nextRef st)) = TextPieceK \<and>
         textStr (heap st' (nextRef st)) = concat (map (\<lambda>x. textStr (heap st x)) xs) \<and>
         textContents st' self = Some (concat (map (\<lambda>x. textStr (heap st x)) xs))"
proof -
  let ?c = "concat (map (\<lambda>x. textStr (heap st x)) xs)"
  let ?n = "nextRef st"
  have tc: "textContents st self = Some ?c" using wf by (simp add: wfChildren_textContents)
  from al have fresh: "?n \<notin> set xs" by (auto simp: list_all_iff)
  from ne mi have "concat (map (domData st) ds) \<noteq> []" by simp
  from normalize_text_None [OF di this] obtain d0 dat' where
    nz: "normalize (map TextNode ds) None (domData st) = ([TextNode d0], dat')"
    and d0: "dat' d0 = ?c"
    using mi by auto
  let ?st1 = "upd (st\<lparr>domData := dat'\<rparr>) self (\<lambda>n. n\<lparr>spanKids := Some [TextNode d0]\<rparr>)"
  let ?st2 = "snd (newTextPiece ?st1 ?c)"
  let ?st4 = "disownChildren (setDOM ?st2 ?n d0) self"
  let ?st' = "adopt ?st4 ?n self None None"
  have fz: "TextBlockFuseChildren self st = Inr ?st'"
    using sp d0 by (simp add: TextBlockFuseChildren_def nz Let_def split_beta)
  have eq: "blur self True st = Inr ?st'"
    using ne tc fz by (simp add: blur_def del: concat_eq_Nil_conv)
  have "wfChildren ?st4 self ([] @ [])"
    by (simp add: wfChildren_empty disownChildren_def)
  from wfChildren_adopt [OF this, of ?n] have w: "wfChildren ?st' self [?n]" by simp
  have k: "kind (heap ?st' ?n) = TextPieceK"
    by (simp add: disownChildren_def setDOM_def blank_def)
  have t: "textStr (heap ?st' ?n) = ?c"
    by (simp add: disownChildren_def setDOM_def blank_def)
  from wfChildren_textContents [OF w] t have "textContents ?st' self = Some ?c" by simp
  then show ?thesis using eq w fresh k t by blast
qed

lemma wfChildren_remove_other:
  assumes "parent (heap st x) = Some p" "sibL (heap st x) = None" "sibR (heap st x) = None"
    and "q \<noteq> p"
  shows "wfChildren (remove st x) q xs = wfChildren st q xs"
proof -
  have pa: "parent (heap (domRemove st x) x) = Some p" using assms by simp
  have "wfChildren (disown (domRemove st x) x) q xs = wfChildren (domRemove st x) q xs"
  proof (rule wfChildren_frame)
    show "\<And>y. sibL (heap (disown (domRemove st x) x) y) = sibL (heap (domRemove st x) y)"
      using disown_sibL [OF pa] assms by (simp add: fun_eq_iff)
    show "\<And>y. sibR (heap (disown (domRemove st x) x) y) = sibR (heap (domRemove st x) y)"
      using disown_sibR [OF pa] assms by (simp add: fun_eq_iff)
  qed (use assms in \<open>simp_all add: disown_endL [OF pa] disown_endR [OF pa]\<close>)
  then show ?thesis by (simp add: remove_def)
qed

lemma deleteRun_empties:
  assumes "wfChildren st self [seg]" "textStr (heap st seg) = t" "t \<noteq> []"
    and "domText (heap st seg) = Some dn" "domData st dn = t"
    and "wfChildren st q xs" "q \<noteq> self"
  shows "\<exists>st'. deleteRun (length t) d seg st = Inr st' \<and> wfChildren st' self [] \<and>
           wfChildren st' q xs"
  using assms
proof (induction "length t" arbitrary: t st)
  case 0
  then show ?case by simp
next
  case (Suc n)
  from Suc.prems(1) have wf: "wfChildren st self ([] @ seg # [])" by simp
  show ?case
  proof (cases "n = 0")
    case True
    with Suc.hyps have l: "length t = 1" by simp
    let ?st1 = "remove st seg"
    let ?st' = "queue (textStr (heap ?st1 seg))
                (?st1\<lparr>cur := set_cdir d (sib d (heap ?st1 seg)) (cur ?st1)\<rparr>)"
    have eq: "deleteTowards d seg st = Inr ?st'"
      using l Suc.prems(2) by (simp add: deleteTowards_def Let_def)
    have w: "wfChildren ?st' self []"
      using wfChildren_remove [OF wf] by (simp add: queue_def wfChildren_def)
    note m = wf_member [OF wf]
    have "wfChildren ?st1 q xs"
      using wfChildren_remove_other [OF m(3), of q xs] m Suc.prems by simp
    then have w2: "wfChildren ?st' q xs" by (simp add: queue_def wfChildren_def)
    show ?thesis using l eq w w2 by simp
  next
    case False
    with Suc.hyps have l: "1 < length t" by simp
    let ?t' = "if d = R then tl t else butlast t"
    let ?st' = "st\<lparr>heap := (heap st)(seg := (heap st seg)\<lparr>textStr := ?t'\<rparr>),
                     domData := (domData st)(dn := ?t'),
                     aria := aria st @ [if d = R then [hd t] else [last t]]\<rparr>"
    from deleteTowards_strip [OF Suc.prems(2) l, of dn d] Suc.prems
    have eq: "deleteTowards d seg st = Inr ?st'" by simp
    have fr: "\<And>r ys. wfChildren ?st' r ys = wfChildren st r ys"
      by (rule wfChildren_frame) simp_all
    have len: "n = length ?t'" using Suc.hyps by simp
    have ne: "?t' \<noteq> []" using l by (cases t; cases "tl t") (auto)
    have "\<exists>st''. deleteRun (length ?t') d seg ?st' = Inr st'' \<and> wfChildren st'' self [] \<and>
           wfChildren st'' q xs"
      by (rule Suc.hyps(1) [OF len]) (use Suc.prems ne in \<open>simp_all add: fr\<close>)
    then show ?thesis using eq Suc.hyps(2) len by (metis deleteRun.simps(2) sum.simps(6))
  qed
qed


text \<open>C2: \<open>blur(cursor)\<close> on a region with empty contents that is a child in a well-formed
  sequence takes the region out of that sequence and moves the cursor's neighbour pointer
  that named the region on to the region's own neighbour. On a region with nonempty contents
  whose span mirrors the segments' text, it leaves the region with exactly one child, a newly
  allocated segment (none of the prior ones) whose text is the concatenation of the prior
  segments' text. In particular, deleting the characters of a region's segment one at a time
  with \<open>deleteTowards\<close> empties the region, and \<open>blur\<close> then removes the region from the
  tree.\<close>

theorem blur_effect:
  "(textContents st self = Some [] \<and> wfChildren st q (ys @ self # zs) \<longrightarrow>
      (\<exists>st'. blur self True st = Inr st' \<and>
         wfChildren st' q (ys @ zs) \<and>
         pL (cur st') = (if pL (cur st) = Some self then sibL (heap st self) else pL (cur st)) \<and>
         pR (cur st') = (if pL (cur st) \<noteq> Some self \<and> pR (cur st) = Some self
                         then sibR (heap st self) else pR (cur st)))) \<and>
   (wfChildren st self xs \<and> concat (map (\<lambda>x. textStr (heap st x)) xs) \<noteq> [] \<and>
    spanKids (heap st self) = Some (map TextNode ds) \<and> distinct ds \<and>
    concat (map (domData st) ds) = concat (map (\<lambda>x. textStr (heap st x)) xs) \<and>
    list_all (\<lambda>x. x < nextRef st) xs \<longrightarrow>
      (\<exists>st'. blur self True st = Inr st' \<and>
         wfChildren st' self [nextRef st] \<and>
         nextRef st \<notin> set xs \<and>
         kind (heap st' (nextRef st)) = TextPieceK \<and>
         textStr (heap st' (nextRef st)) = concat (map (\<lambda>x. textStr (heap st x)) xs) \<and>
         textContents st' self = Some (concat (map (\<lambda>x. textStr (heap st x)) xs)))) \<and>
   (wfChildren st q (ys @ self # zs) \<and> q \<noteq> self \<and> wfChildren st self [seg] \<and>
    textStr (heap st seg) = t \<and> t \<noteq> [] \<and>
    domText (heap st seg) = Some dn \<and> domData st dn = t \<longrightarrow>
      (\<exists>st1 st'. deleteRun (length t) d seg st = Inr st1 \<and>
         textContents st1 self = Some [] \<and>
         blur self True st1 = Inr st' \<and> wfChildren st' q (ys @ zs)))"
proof (intro conjI impI)
  assume "textContents st self = Some [] \<and> wfChildren st q (ys @ self # zs)"
  then show "\<exists>st'. blur self True st = Inr st' \<and>
         wfChildren st' q (ys @ zs) \<and>
         pL (cur st') = (if pL (cur st) = Some self then sibL (heap st self) else pL (cur st)) \<and>
         pR (cur st') = (if pL (cur st) \<noteq> Some self \<and> pR (cur st) = Some self
                         then sibR (heap st self) else pR (cur st))"
    using blur_removes_empty by blast
next
  assume "wfChildren st self xs \<and> concat (map (\<lambda>x. textStr (heap st x)) xs) \<noteq> [] \<and>
    spanKids (heap st self) = Some (map TextNode ds) \<and> distinct ds \<and>
    concat (map (domData st) ds) = concat (map (\<lambda>x. textStr (heap st x)) xs) \<and>
    list_all (\<lambda>x. x < nextRef st) xs"
  then show "\<exists>st'. blur self True st = Inr st' \<and>
         wfChildren st' self [nextRef st] \<and>
         nextRef st \<notin> set xs \<and>
         kind (heap st' (nextRef st)) = TextPieceK \<and>
         textStr (heap st' (nextRef st)) = concat (map (\<lambda>x. textStr (heap st x)) xs) \<and>
         textContents st' self = Some (concat (map (\<lambda>x. textStr (heap st x)) xs))"
    using blur_fuses [of st self xs ds] by blast
next
  assume a: "wfChildren st q (ys @ self # zs) \<and> q \<noteq> self \<and> wfChildren st self [seg] \<and>
    textStr (heap st seg) = t \<and> t \<noteq> [] \<and>
    domText (heap st seg) = Some dn \<and> domData st dn = t"
  then obtain st1 where r: "deleteRun (length t) d seg st = Inr st1"
    and e: "wfChildren st1 self []" and w: "wfChildren st1 q (ys @ self # zs)"
    using deleteRun_empties [of st self seg t dn q "ys @ self # zs" d] by blast
  from wfChildren_textContents [OF e] have tc: "textContents st1 self = Some []" by simp
  from blur_removes_empty [OF tc w] obtain st' where
    "blur self True st1 = Inr st'" "wfChildren st' q (ys @ zs)" by blast
  with r tc show "\<exists>st1 st'. deleteRun (length t) d seg st = Inr st1 \<and>
         textContents st1 self = Some [] \<and>
         blur self True st1 = Inr st' \<and> wfChildren st' q (ys @ zs)" by blast
qed

lemma wf_emptyRegionDoc:
  "wfChildren emptyRegionDoc 0 [1]" "textContents emptyRegionDoc 1 = Some []"
  by (simp_all add: emptyRegionDoc_def insAtRightEnd_def insAtDirEnd_def wfChildren_def
      doc_defs fold_defs)

lemma wf_oneSegDoc: "wfChildren oneSegDoc 0 [1]" "wfChildren oneSegDoc 1 [2]"
  by (simp_all add: oneSegDoc_def wfChildren_def blank_def)

theorem blur_effect_witness:
  "(textContents emptyRegionDoc 1 = Some [] \<and> wfChildren emptyRegionDoc 0 ([] @ 1 # []) \<and>
    (\<exists>st'. blur 1 True emptyRegionDoc = Inr st' \<and> wfChildren st' 0 [])) \<and>
   (wfChildren twoSegDoc 1 [2, 3] \<and>
    concat (map (\<lambda>x. textStr (heap twoSegDoc x)) [2, 3]) \<noteq> [] \<and>
    spanKids (heap twoSegDoc 1) = Some (map TextNode [0, 1]) \<and> distinct [0, 1 :: nat] \<and>
    concat (map (domData twoSegDoc) [0, 1]) =
      concat (map (\<lambda>x. textStr (heap twoSegDoc x)) [2, 3]) \<and>
    list_all (\<lambda>x. x < nextRef twoSegDoc) [2, 3] \<and>
    (\<exists>st'. blur 1 True twoSegDoc = Inr st' \<and> wfChildren st' 1 [4] \<and>
       textStr (heap st' 4) = ''abc'' \<and> textContents st' 1 = Some ''abc'')) \<and>
   (wfChildren oneSegDoc 0 ([] @ 1 # []) \<and> (0::nat) \<noteq> 1 \<and> wfChildren oneSegDoc 1 [2] \<and>
    textStr (heap oneSegDoc 2) = ''ab'' \<and> ''ab'' \<noteq> [] \<and>
    domText (heap oneSegDoc 2) = Some 0 \<and> domData oneSegDoc 0 = ''ab'' \<and>
    (\<exists>st1 st'. deleteRun (length ''ab'') R 2 oneSegDoc = Inr st1 \<and>
       textContents st1 1 = Some [] \<and> blur 1 True st1 = Inr st' \<and> wfChildren st' 0 []))"
proof -
  have a: "textContents emptyRegionDoc 1 = Some [] \<and> wfChildren emptyRegionDoc 0 ([] @ 1 # [])"
    using wf_emptyRegionDoc by simp
  have b: "wfChildren twoSegDoc 1 [2, 3] \<and>
    concat (map (\<lambda>x. textStr (heap twoSegDoc x)) [2, 3]) \<noteq> [] \<and>
    spanKids (heap twoSegDoc 1) = Some (map TextNode [0, 1]) \<and> distinct [0, 1 :: nat] \<and>
    concat (map (domData twoSegDoc) [0, 1]) =
      concat (map (\<lambda>x. textStr (heap twoSegDoc x)) [2, 3]) \<and>
    list_all (\<lambda>x. x < nextRef twoSegDoc) [2, 3]"
    using wf_twoSegDoc by (simp add: twoSegDoc_def)
  have c: "wfChildren oneSegDoc 0 ([] @ 1 # []) \<and> (0::nat) \<noteq> 1 \<and> wfChildren oneSegDoc 1 [2] \<and>
    textStr (heap oneSegDoc 2) = ''ab'' \<and> ''ab'' \<noteq> [] \<and>
    domText (heap oneSegDoc 2) = Some 0 \<and> domData oneSegDoc 0 = ''ab''"
    using wf_oneSegDoc by (simp add: oneSegDoc_def)
  have n: "nextRef twoSegDoc = 4" "concat (map (\<lambda>x. textStr (heap twoSegDoc x)) [2, 3]) = ''abc''"
    by (simp_all add: twoSegDoc_def)
  note th1 = blur_effect [where st = emptyRegionDoc and self = 1 and q = 0 and ys = "[]"
      and zs = "[]", THEN conjunct1, rule_format, OF a]
  note th2 = blur_effect [where st = twoSegDoc and self = 1 and xs = "[2, 3]" and ds = "[0, 1]",
      THEN conjunct2, THEN conjunct1, rule_format, OF b]
  note th3 = blur_effect [where st = oneSegDoc and self = 1 and q = 0 and ys = "[]"
      and zs = "[]" and seg = 2 and t = "''ab''" and dn = 0 and d = R,
      THEN conjunct2, THEN conjunct2, rule_format, OF c]
  from th1 have r1: "\<exists>st'. blur 1 True emptyRegionDoc = Inr st' \<and> wfChildren st' 0 []"
    by auto
  from th2 n have r2: "\<exists>st'. blur 1 True twoSegDoc = Inr st' \<and> wfChildren st' 1 [4] \<and>
       textStr (heap st' 4) = ''abc'' \<and> textContents st' 1 = Some ''abc''"
    by auto
  from th3 have r3: "\<exists>st1 st'. deleteRun (length ''ab'') R 2 oneSegDoc = Inr st1 \<and>
       textContents st1 1 = Some [] \<and> blur 1 True st1 = Inr st' \<and> wfChildren st' 0 []"
    by (simp only: append_Nil)
  show ?thesis using a b c r1 r2 r3 by blast
qed

subsection \<open>Replaying recorded text\<close>

lemma replay_inert: "replay self s st = st"
  by (induction s) (simp_all add: write_TextBlock_def)

lemma foldFrom_None: "foldFrom h f None acc = Some acc"
  by (simp add: foldFrom.simps)

lemma createLeftOf_region:
  assumes c: "pParent (cur st) = Some p" and e: "endL (heap st self) = None"
    and k: "kind (heap st self) = TextBlockK" and ne: "p \<noteq> self"
  shows "\<exists>st'. createLeftOf self st = Inr st' \<and> endL (heap st' self) = None \<and>
           parent (heap st' self) = Some p"
proof -
  have tc: "textContents st self = Some []"
    using e by (simp add: textContents_def foldChildren_def foldFrom_None)
  let ?d = "nextDom st"
  let ?st1 = "upd (st\<lparr>domData := (domData st)(?d := []), nextDom := Suc ?d\<rparr>) self
                     (\<lambda>n. n\<lparr>spanKids := Some [TextNode ?d]\<rparr>)"
  have h: "html self st = Inr ?st1"
    using k tc by (simp add: html_def htmlTextBlock_def Let_def)
  have dt: "domText (heap ?st1 self) = domText (heap st self)" by simp
  let ?st2 = "domInsertAtCursor self p ?st1"
  let ?st3 = "adopt ?st2 self p (pL (cur ?st2)) (pR (cur ?st2))"
  have cd: "createDir L self st = Inr (?st3\<lparr>cur := set_cdir L (Some self) (cur ?st3)\<rparr>)"
    using c h by (simp add: createDir_def Let_def)
  have e2: "endL (heap ?st2 self) = None"
    using e by (simp add: domInsertAtCursor_def Let_def split: option.splits)
  have e3: "endL (heap ?st3 self) = None" using e2 ne by (simp add: adopt_endL)
  have p3: "parent (heap ?st3 self) = Some p" by (simp add: adopt_parent)
  show ?thesis
    using cd e3 p3
    by (simp add: createLeftOf_def Let_def replay_inert siblingCreated_def bubbleReflow_def
        insAtRightEnd_def insAtDirEnd_def split: option.splits)
qed

lemma remove_endL:
  "parent (heap st x) = Some p \<Longrightarrow> p \<noteq> x \<Longrightarrow> endL (heap (remove st x) x) = endL (heap st x)"
  by (simp add: remove_def disown_endL)

text \<open>C1, amended: for every string \<open>s\<close> and every document whose cursor has a parent
  (other than the handle about to be allocated), creating a region, calling \<open>replaces(s)\<close>,
  inserting it with \<open>createLeftOf(cursor)\<close> and then calling \<open>blur(cursor)\<close> yields
  \<open>textContents() = ''\<close> and a region without segments: the replay goes through the region's
  \<open>write\<close>, whose body is empty.\<close>

theorem replay_is_inert:
  assumes c: "pParent (cur st) = Some p" and ne: "p \<noteq> nextRef st"
  shows "scenarioContents s st = Inr (Some []) \<and> scenarioSegments s st = Inr (Some [])"
proof -
  let ?tb = "nextRef st"
  let ?st2 = "replaces ?tb s (snd (newTextBlock st textCtrlSeq))"
  have "\<exists>st3. createLeftOf ?tb ?st2 = Inr st3 \<and> endL (heap st3 ?tb) = None \<and>
           parent (heap st3 ?tb) = Some p"
    by (rule createLeftOf_region)
       (use c ne in \<open>simp_all add: replaces_def newTextBlock_def alloc_def blank_def\<close>)
  then obtain st3 where cl: "createLeftOf ?tb ?st2 = Inr st3" and e3: "endL (heap st3 ?tb) = None"
    and p3: "parent (heap st3 ?tb) = Some p" by blast
  have tc3: "textContents st3 ?tb = Some []"
    using e3 by (simp add: textContents_def foldChildren_def foldFrom_None)
  let ?st1 = "remove st3 ?tb"
  let ?st4 = "(if pL (cur ?st1) = Some ?tb
                       then ?st1\<lparr>cur := (cur ?st1)\<lparr>pL := sibL (heap ?st1 ?tb)\<rparr>\<rparr>
                       else if pR (cur ?st1) = Some ?tb
                       then ?st1\<lparr>cur := (cur ?st1)\<lparr>pR := sibR (heap ?st1 ?tb)\<rparr>\<rparr>
                       else ?st1)"
  have b: "blur ?tb True st3 = Inr ?st4" using tc3 by (simp add: blur_def Let_def)
  have e4: "endL (heap ?st4 ?tb) = None" using remove_endL [OF p3 ne] e3 by simp
  have sc: "replaceScenario s st = Inr (?tb, ?st4)"
    using cl b by (simp add: replaceScenario_def newTextBlock_def alloc_def Let_def)
  show ?thesis
    using sc e4
    by (simp add: scenarioContents_def scenarioSegments_def textContents_def children_def
        foldChildren_def foldFrom_None)
qed

text \<open>C1 as stated fails: after \<open>replaces('a')\<close>, \<open>createLeftOf\<close> and \<open>blur\<close> in an empty
  document the contents of the region are not \<open>a\<close>.\<close>

theorem replay_counterexample:
  "scenarioContents ''a'' emptyDoc \<noteq> Inr (Some ''a'')"
  by (simp add: scenarioContents_def replaceScenario_def createLeftOf_def createDir_def
      html_def htmlTextBlock_def domInsertAtCursor_def replaces_def blur_def remove_def
      domRemove_def disown_def insAtRightEnd_def insAtDirEnd_def write_TextBlock_def
      siblingCreated_def bubbleReflow_def doc_defs fold_defs)

theorem replay_is_inert_witness:
  "pParent (cur emptyDoc) = Some 0 \<and> 0 \<noteq> nextRef emptyDoc \<and>
   scenarioContents ''a'' emptyDoc = Inr (Some []) \<and>
   scenarioSegments ''a'' emptyDoc = Inr (Some [])"
  using replay_is_inert [of emptyDoc 0 "''a''"] by (simp add: emptyDoc_def)


subsection \<open>The boundary of a region and the mode switch\<close>

lemmas math_defs = mathDoc_def mathDocLeft_def mathDocMid_def emptyMathDoc_def insAtRightEnd_def insAtDirEnd_def
  insRightOf_def insLeftOf_def insDirOf_def isEmpty_def idleWrite_def

text \<open>C9 as stated fails: \<open>deleteOutOf\<close> on an empty region that holds the cursor does not
  leave the cursor inside the region.\<close>

theorem deleteOutOf_counterexample:
  "isEmpty (heap emptyRegionDoc 1) \<and>
   pParent (cur (deleteOutOf L 1 emptyRegionDoc)) \<noteq> Some 1"
  by (simp add: deleteOutOf_def emptyRegionDoc_def doc_defs math_defs)

text \<open>C9, amended: for every region and direction, \<open>deleteOutOf\<close> changes nothing at all
  unless the region is empty; when the region is empty the tree is unchanged and the cursor
  is placed immediately to the right of the region, outside it: its parent is the region's
  parent, its left neighbour is the region, its right neighbour is the region's right
  sibling.\<close>

theorem deleteOutOf_effect:
  "(\<not> isEmpty (heap st self) \<longrightarrow> deleteOutOf d self st = st) \<and>
   (isEmpty (heap st self) \<longrightarrow>
      heap (deleteOutOf d self st) = heap st \<and>
      pParent (cur (deleteOutOf d self st)) = parent (heap st self) \<and>
      pL (cur (deleteOutOf d self st)) = Some self \<and>
      pR (cur (deleteOutOf d self st)) = sibR (heap st self))"
  by (simp add: deleteOutOf_def insRightOf_def insDirOf_def)

theorem deleteOutOf_effect_witness:
  "\<not> isEmpty (heap twoSegDoc 1) \<and> deleteOutOf L 1 twoSegDoc = twoSegDoc \<and>
   isEmpty (heap emptyRegionDoc 1) \<and>
   heap (deleteOutOf R 1 emptyRegionDoc) = heap emptyRegionDoc \<and>
   pParent (cur (deleteOutOf R 1 emptyRegionDoc)) = Some 0 \<and>
   pL (cur (deleteOutOf R 1 emptyRegionDoc)) = Some 1 \<and>
   pR (cur (deleteOutOf R 1 emptyRegionDoc)) = None"
proof -
  have a: "\<not> isEmpty (heap twoSegDoc 1)" by (simp add: twoSegDoc_def isEmpty_def)
  have b: "isEmpty (heap emptyRegionDoc 1)" "parent (heap emptyRegionDoc 1) = Some 0"
    "sibR (heap emptyRegionDoc 1) = None"
    by (simp_all add: emptyRegionDoc_def doc_defs math_defs)
  from deleteOutOf_effect [of twoSegDoc 1 L] deleteOutOf_effect [of emptyRegionDoc 1 R]
  show ?thesis using a b by simp
qed




subsection \<open>Moving and selecting across a run\<close>

lemma texts_simps [simp]:
  "texts st [] = []" "texts st (x # xs) = textStr (heap st x) @ texts st xs"
  "texts st (xs @ ys) = texts st xs @ texts st ys"
  by (simp_all add: texts_def)

lemma texts_cong: "(\<And>x. x \<in> set xs \<Longrightarrow> textStr (heap st' x) = textStr (heap st x))
   \<Longrightarrow> texts st' xs = texts st xs"
  by (induction xs) simp_all

lemma editingD:
  assumes "editing st p ys zs"
  shows "wfChildren st p (ys @ zs)" "p < nextRef st" "pParent (cur st) = Some p"
    "pL (cur st) = lastOpt ys" "pR (cur st) = headOpt zs" "list_all (segOk st) (ys @ zs)"
    "distinct (map (\<lambda>x. domText (heap st x)) (ys @ zs))"
  using assms unfolding editing_def by blast+

lemma editingI:
  assumes "wfChildren st p (ys @ zs)" "p < nextRef st" "pParent (cur st) = Some p"
    "pL (cur st) = lastOpt ys" "pR (cur st) = headOpt zs" "list_all (segOk st) (ys @ zs)"
    "distinct (map (\<lambda>x. domText (heap st x)) (ys @ zs))"
  shows "editing st p ys zs"
  using assms unfolding editing_def by blast

lemma editing_segOk: "editing st p ys zs \<Longrightarrow> x \<in> set (ys @ zs) \<Longrightarrow> segOk st x"
  using editingD(6) [of st p ys zs] unfolding list_all_iff by blast

lemma segOk_dom:
  "segOk st x \<Longrightarrow> \<exists>d. domText (heap st x) = Some d \<and> d < nextDom st \<and>
      domData st d = textStr (heap st x)"
  by (auto simp: segOk_def split: option.splits)

lemma editing_dom_inj:
  assumes "editing st p ys zs" "x \<in> set (ys @ zs)" "y \<in> set (ys @ zs)"
    "domText (heap st x) = domText (heap st y)"
  shows "x = y"
proof -
  from editingD(7) [OF assms(1)] have "inj_on (\<lambda>x. domText (heap st x)) (set (ys @ zs))"
    using distinct_map by blast
  with assms(2-4) show ?thesis by (blast dest: inj_onD)
qed

lemma editing_setText:
  assumes e: "editing st p ys zs" and f: "f \<in> set (ys @ zs)"
    and df: "domText (heap st f) = Some df" and T: "T \<noteq> []"
  shows "editing (setText f df T st) p ys zs"
proof (rule editingI)
  let ?st = "setText f df T st"
  have "wfChildren ?st p (ys @ zs) = wfChildren st p (ys @ zs)"
    by (rule wfChildren_frame) (simp_all add: setText_def)
  then show "wfChildren ?st p (ys @ zs)" using editingD(1) [OF e] by blast
  show "p < nextRef ?st" "pParent (cur ?st) = Some p" "pL (cur ?st) = lastOpt ys"
    "pR (cur ?st) = headOpt zs"
    using editingD(2-5) [OF e] by (simp_all add: setText_def)
  have dt: "\<And>x. domText (heap ?st x) = domText (heap st x)" by (simp add: setText_def)
  have "segOk ?st x" if x: "x \<in> set (ys @ zs)" for x
  proof (cases "x = f")
    case True
    with editing_segOk [OF e x] df T show ?thesis
      by (simp add: segOk_def setText_def)
  next
    case False
    from editing_segOk [OF e x] obtain d where d: "domText (heap st x) = Some d"
      "d < nextDom st" "domData st d = textStr (heap st x)" "x < nextRef st"
      "kind (heap st x) = TextPieceK" "textStr (heap st x) \<noteq> []"
      by (auto simp: segOk_def split: option.splits)
    have "d \<noteq> df" using editing_dom_inj [OF e x f] d df False by auto
    with d False show ?thesis by (simp add: segOk_def setText_def)
  qed
  then show "list_all (segOk ?st) (ys @ zs)" unfolding list_all_iff by blast
  show "distinct (map (\<lambda>x. domText (heap ?st x)) (ys @ zs))"
    using editingD(7) [OF e] by (simp only: dt)
qed

lemma texts_setText:
  "f \<notin> set xs \<Longrightarrow> texts (setText f df T st) xs = texts st xs"
  by (rule texts_cong) (auto simp: setText_def)

lemma textStr_setText [simp]:
  "textStr (heap (setText f df T st) x) = (if x = f then T else textStr (heap st x))"
  by (simp add: setText_def)

lemma cur_setText [simp]: "cur (setText f df T st) = cur st"
  by (simp add: setText_def)

lemma segOk_queue [simp]: "segOk (queue s st) = segOk st"
  by (rule ext) (simp add: segOk_def queue_def cong: option.case_cong)

lemma segOk_anticursor [simp]: "segOk (st\<lparr>cur := c\<rparr>) = segOk st"
  by (rule ext) (simp add: segOk_def cong: option.case_cong)

lemma editing_queue [simp]: "editing (queue s st) p ys zs = editing st p ys zs"
  by (simp add: editing_def wfChildren_def) (simp add: queue_def)

lemma texts_queue [simp]: "texts (queue s st) xs = texts st xs"
  by (simp add: texts_def queue_def)

lemma cur_queue [simp]: "cur (queue s st) = cur st"
  by (simp add: queue_def)

lemma heap_queue [simp]: "heap (queue s st) = heap st"
  by (simp add: queue_def)

lemma editing_anticursor [simp]:
  "editing (st\<lparr>cur := (cur st)\<lparr>anticursor := a\<rparr>\<rparr>) p ys zs = editing st p ys zs"
  by (simp add: editing_def wfChildren_def)

lemma editing_distinct: "editing st p ys zs \<Longrightarrow> distinct (ys @ zs)"
  using editingD(1) [of st p ys zs] unfolding wfChildren_def by blast

lemma deleteTowards_setText:
  assumes e: "editing st p ys zs" and x: "x \<in> set (ys @ zs)" and l: "1 < length (textStr (heap st x))"
  shows "\<exists>dn. domText (heap st x) = Some dn \<and>
     deleteTowards d x st =
       Inr (queue [if d = R then hd (textStr (heap st x)) else last (textStr (heap st x))]
             (setText x dn (if d = R then tl (textStr (heap st x)) else butlast (textStr (heap st x))) st))"
proof -
  note ok = editing_segOk [OF e x]
  from segOk_dom [OF ok] obtain dn where
    dn: "domText (heap st x) = Some dn" "domData st dn = textStr (heap st x)" by blast
  from deleteTowards_strip [OF refl l dn, of d] dn(1) show ?thesis
    by (simp add: queue_def setText_def)
qed


lemma wfChildren_cur [simp]: "wfChildren (st\<lparr>cur := c\<rparr>) p xs = wfChildren st p xs"
  by (simp add: wfChildren_def)

lemma segOk_remove [simp]: "segOk (remove st x) = segOk st"
  by (rule ext) (simp add: segOk_def cong: option.case_cong)

lemma texts_remove [simp]: "texts (remove st x) xs = texts st xs"
  by (simp add: texts_def)

lemma texts_cur [simp]: "texts (st\<lparr>cur := c\<rparr>) xs = texts st xs"
  by (simp add: texts_def)

lemma editing_remove_R:
  assumes e: "editing st p ys (z # zs)"
  shows "editing ((remove st z)\<lparr>cur := set_cdir R (sib R (heap (remove st z) z))
                                        (cur (remove st z))\<rparr>) p ys zs"
proof (rule editingI)
  let ?st = "(remove st z)\<lparr>cur := set_cdir R (sib R (heap (remove st z) z)) (cur (remove st z))\<rparr>"
  note wf = editingD(1) [OF e]
  show "wfChildren ?st p (ys @ zs)" using wfChildren_remove [OF wf] by simp
  show "p < nextRef ?st" "pParent (cur ?st) = Some p" "pL (cur ?st) = lastOpt ys"
    using editingD(2-4) [OF e] by simp_all
  show "pR (cur ?st) = headOpt zs"
    using remove_self [OF wf, of R] wf_member(1) [OF wf] by simp
  show "list_all (segOk ?st) (ys @ zs)" using editingD(6) [OF e] by simp
  show "distinct (map (\<lambda>x. domText (heap ?st x)) (ys @ zs))"
    using editingD(7) [OF e] by simp
qed

lemma editing_remove_L:
  assumes e: "editing st p (ys @ [y]) zs"
  shows "editing ((remove st y)\<lparr>cur := set_cdir L (sib L (heap (remove st y) y))
                                        (cur (remove st y))\<rparr>) p ys zs"
proof (rule editingI)
  let ?st = "(remove st y)\<lparr>cur := set_cdir L (sib L (heap (remove st y) y)) (cur (remove st y))\<rparr>"
  from editingD(1) [OF e] have wf: "wfChildren st p (ys @ y # zs)" by simp
  show "wfChildren ?st p (ys @ zs)" using wfChildren_remove [OF wf] by simp
  show "p < nextRef ?st" "pParent (cur ?st) = Some p" "pR (cur ?st) = headOpt zs"
    using editingD(2,3,5) [OF e] by simp_all
  show "pL (cur ?st) = lastOpt ys"
    using remove_self [OF wf, of L] wf_member(2) [OF wf] by simp
  show "list_all (segOk ?st) (ys @ zs)" using editingD(6) [OF e] by simp
  show "distinct (map (\<lambda>x. domText (heap ?st x)) (ys @ zs))"
    using editingD(7) [OF e] by simp
qed

lemma deleteTowards_R_editing:
  assumes e: "editing st p ys (z # zs)"
  shows "\<exists>st' zs'. deleteTowards R z st = Inr st' \<and> editing st' p ys zs' \<and>
           texts st' ys = texts st ys \<and> texts st' zs' = tl (texts st (z # zs)) \<and>
           anticursor (cur st') = anticursor (cur st)"
proof -
  let ?t = "textStr (heap st z)"
  have zin: "z \<in> set (ys @ z # zs)" by simp
  from editing_segOk [OF e zin] have ne: "?t \<noteq> []" by (simp add: segOk_def)
  from editing_distinct [OF e] have zy: "z \<notin> set ys" "z \<notin> set zs" by auto
  show ?thesis
  proof (cases "1 < length ?t")
    case True
    from deleteTowards_setText [OF e zin True, of R] obtain dn where
      dn: "domText (heap st z) = Some dn"
      and r: "deleteTowards R z st = Inr (queue [hd ?t] (setText z dn (tl ?t) st))" by auto
    have tl: "tl ?t \<noteq> []" using True by (cases ?t; cases "tl ?t") auto
    have ed: "editing (queue [hd ?t] (setText z dn (tl ?t) st)) p ys (z # zs)"
      using editing_setText [OF e zin dn tl] by simp
    show ?thesis using r ed zy ne by (auto simp: texts_setText)
  next
    case False
    with ne have l: "length ?t = 1" by (cases ?t) auto
    let ?st1 = "remove st z"
    let ?st' = "queue (textStr (heap ?st1 z))
                (?st1\<lparr>cur := set_cdir R (sib R (heap ?st1 z)) (cur ?st1)\<rparr>)"
    have r: "deleteTowards R z st = Inr ?st'" using l by (simp add: deleteTowards_def Let_def)
    have tt: "tl (?t @ texts st zs) = texts st zs" using l by (cases ?t) auto
    have ed: "editing ?st' p ys zs" using editing_remove_R [OF e] by simp
    have "texts ?st' ys = texts st ys" "texts ?st' zs = tl (texts st (z # zs))"
      "anticursor (cur ?st') = anticursor (cur st)"
      using tt by simp_all
    with r ed show ?thesis by blast
  qed
qed

lemma deleteTowards_L_editing:
  assumes e: "editing st p (ys @ [y]) zs"
  shows "\<exists>st' ys'. deleteTowards L y st = Inr st' \<and> editing st' p ys' zs \<and>
           texts st' zs = texts st zs \<and> texts st' ys' = butlast (texts st (ys @ [y])) \<and>
           anticursor (cur st') = anticursor (cur st)"
proof -
  let ?t = "textStr (heap st y)"
  have yin: "y \<in> set ((ys @ [y]) @ zs)" by simp
  from editing_segOk [OF e yin] have ne: "?t \<noteq> []" by (simp add: segOk_def)
  from editing_distinct [OF e] have zy: "y \<notin> set ys" "y \<notin> set zs" by auto
  show ?thesis
  proof (cases "1 < length ?t")
    case True
    from deleteTowards_setText [OF e yin True, of L] obtain dn where
      dn: "domText (heap st y) = Some dn"
      and r: "deleteTowards L y st = Inr (queue [last ?t] (setText y dn (butlast ?t) st))" by auto
    have bl: "butlast ?t \<noteq> []" using True by (cases ?t; cases "tl ?t") auto
    have ed: "editing (queue [last ?t] (setText y dn (butlast ?t) st)) p (ys @ [y]) zs"
      using editing_setText [OF e yin dn bl] by simp
    show ?thesis using r ed zy ne by (auto simp: texts_setText butlast_append)
  next
    case False
    with ne have l: "length ?t = 1" by (cases ?t) auto
    let ?st1 = "remove st y"
    let ?st' = "queue (textStr (heap ?st1 y))
                (?st1\<lparr>cur := set_cdir L (sib L (heap ?st1 y)) (cur ?st1)\<rparr>)"
    have r: "deleteTowards L y st = Inr ?st'" using l by (simp add: deleteTowards_def Let_def)
    have tt: "butlast (texts st ys @ ?t) = texts st ys"
      using l by (cases ?t) (auto simp: butlast_append)
    have ed: "editing ?st' p ys zs" using editing_remove_L [OF e] by simp
    have "texts ?st' zs = texts st zs" "texts ?st' ys = butlast (texts st (ys @ [y]))"
      "anticursor (cur ?st') = anticursor (cur st)"
      using tt by simp_all
    with r ed show ?thesis by blast
  qed
qed


lemma insText_editing:
  assumes e: "editing st p ys zs" and f: "f \<in> set (ys @ zs)"
  shows "\<exists>df. domText (heap st f) = Some df \<and>
     insTextAtDirEnd f ch d st =
       Inr (setText f df (if d = R then textStr (heap st f) @ ch else ch @ textStr (heap st f)) st)"
proof -
  note ok = editing_segOk [OF e f]
  from segOk_dom [OF ok] obtain df where
    df: "domText (heap st f) = Some df" "domData st df = textStr (heap st f)" by blast
  then show ?thesis
    by (simp add: insTextAtDirEnd_def appendText_def prependText_def oneText_def appendData_def
        insertData0_def setText_def upd_def Let_def)
qed

lemma htmlTextPiece_fields [simp]:
  "nextRef (htmlTextPiece n st) = nextRef st"
  "nextDom (htmlTextPiece n st) = Suc (nextDom st)"
  "cur (htmlTextPiece n st) = cur st"
  "aria (htmlTextPiece n st) = aria st"
  "domData (htmlTextPiece n st) = (domData st)(nextDom st := textStr (heap st n))"
  "sibL (heap (htmlTextPiece n st) q) = sibL (heap st q)"
  "sibR (heap (htmlTextPiece n st) q) = sibR (heap st q)"
  "endL (heap (htmlTextPiece n st) q) = endL (heap st q)"
  "endR (heap (htmlTextPiece n st) q) = endR (heap st q)"
  "parent (heap (htmlTextPiece n st) q) = parent (heap st q)"
  "textStr (heap (htmlTextPiece n st) q) = textStr (heap st q)"
  "kind (heap (htmlTextPiece n st) q) = kind (heap st q)"
  "domText (heap (htmlTextPiece n st) q) = (if q = n then Some (nextDom st) else domText (heap st q))"
  by (simp_all add: htmlTextPiece_def setDOM_def Let_def)

lemma domInsertAtCursor_fields [simp]:
  "nextRef (domInsertAtCursor n p st) = nextRef st"
  "nextDom (domInsertAtCursor n p st) = nextDom st"
  "cur (domInsertAtCursor n p st) = cur st"
  "aria (domInsertAtCursor n p st) = aria st"
  "domData (domInsertAtCursor n p st) = domData st"
  "sibL (heap (domInsertAtCursor n p st) q) = sibL (heap st q)"
  "sibR (heap (domInsertAtCursor n p st) q) = sibR (heap st q)"
  "endL (heap (domInsertAtCursor n p st) q) = endL (heap st q)"
  "endR (heap (domInsertAtCursor n p st) q) = endR (heap st q)"
  "parent (heap (domInsertAtCursor n p st) q) = parent (heap st q)"
  "textStr (heap (domInsertAtCursor n p st) q) = textStr (heap st q)"
  "kind (heap (domInsertAtCursor n p st) q) = kind (heap st q)"
  "domText (heap (domInsertAtCursor n p st) q) = domText (heap st q)"
  by (simp_all add: domInsertAtCursor_def Let_def split: option.splits)

lemma createPiece_editing:
  assumes e: "editing st p ys zs" and ch: "ch \<noteq> []"
  shows "\<exists>st'. createPiece ch d st = Inr (nextRef st, st') \<and>
           editing st' p (if d = L then ys @ [nextRef st] else ys)
                        (if d = L then zs else nextRef st # zs) \<and>
           wfChildren st' p (ys @ nextRef st # zs) \<and>
           nextRef st \<notin> set (ys @ zs) \<and>
           textStr (heap st' (nextRef st)) = ch \<and>
           (\<forall>x. x \<noteq> nextRef st \<longrightarrow> textStr (heap st' x) = textStr (heap st x)) \<and>
           cur st' = set_cdir d (Some (nextRef st)) (cur st) \<and>
           list_all (segOk st') (ys @ nextRef st # zs) \<and>
           distinct (map (\<lambda>x. domText (heap st' x)) (ys @ nextRef st # zs)) \<and>
           nextRef st' = Suc (nextRef st)"
proof -
  let ?n = "nextRef st"
  let ?st1 = "snd (newTextPiece st ch)"
  let ?st2 = "domInsertAtCursor ?n p (htmlTextPiece ?n ?st1)"
  let ?st3 = "adopt ?st2 ?n p (pL (cur ?st2)) (pR (cur ?st2))"
  let ?st' = "?st3\<lparr>cur := set_cdir d (Some ?n) (cur ?st3)\<rparr>"
  note D = editingD [OF e]
  have fresh: "?n \<notin> set (ys @ zs)"
    using D(6) unfolding list_all_iff segOk_def by auto
  have np: "?n \<noteq> p" using D(2) by simp
  have k1: "kind (heap ?st1 ?n) = TextPieceK" by (simp add: blank_def)
  have cd: "createDir d ?n ?st1 = Inr ?st'"
    using D(3) k1 by (simp add: createDir_def html_def Let_def)
  have cp: "createPiece ch d st = Inr (?n, ?st')"
    using cd by (simp add: createPiece_def split_beta)
  have "wfChildren ?st1 p (ys @ zs)"
    using D(1) fresh np unfolding newTextPiece_def by (simp add: wfChildren_alloc)
  moreover have "wfChildren ?st2 p (ys @ zs) = wfChildren ?st1 p (ys @ zs)"
    by (rule wfChildren_frame) simp_all
  ultimately have wf2: "wfChildren ?st2 p (ys @ zs)" by simp
  have c2: "pL (cur ?st2) = lastOpt ys" "pR (cur ?st2) = headOpt zs" using D(4,5) by simp_all
  from wfChildren_adopt [OF wf2 fresh] have wf3: "wfChildren ?st3 p (ys @ ?n # zs)"
    by (simp only: c2)
  then have wf': "wfChildren ?st' p (ys @ ?n # zs)" by simp
  have tn: "textStr (heap ?st' ?n) = ch" by (simp add: blank_def)
  have to: "\<forall>x. x \<noteq> ?n \<longrightarrow> textStr (heap ?st' x) = textStr (heap st x)" by simp
  have cu: "cur ?st' = set_cdir d (Some ?n) (cur st)" by simp
  have okn: "segOk ?st' ?n" using ch by (simp add: segOk_def blank_def)
  have oko: "segOk ?st' x" if x: "x \<in> set (ys @ zs)" for x
  proof -
    from editing_segOk [OF e x] obtain dx where dx: "domText (heap st x) = Some dx"
      "dx < nextDom st" "domData st dx = textStr (heap st x)" "x < nextRef st"
      "kind (heap st x) = TextPieceK" "textStr (heap st x) \<noteq> []"
      by (auto simp: segOk_def split: option.splits)
    then show ?thesis by (simp add: segOk_def)
  qed
  have ok: "list_all (segOk ?st') (ys @ ?n # zs)"
    using okn oko unfolding list_all_iff by auto
  have dto: "domText (heap ?st' x) = domText (heap st x)" if "x \<in> set (ys @ zs)" for x
    using that fresh by auto
  have dtn: "domText (heap ?st' ?n) = Some (nextDom st)" by simp
  have nd: "Some (nextDom st) \<notin> (\<lambda>x. domText (heap st x)) ` set (ys @ zs)"
  proof
    assume "Some (nextDom st) \<in> (\<lambda>x. domText (heap st x)) ` set (ys @ zs)"
    then obtain x where x: "x \<in> set (ys @ zs)" "domText (heap st x) = Some (nextDom st)"
      by (metis (no_types, lifting) imageE)
    from editing_segOk [OF e x(1)] x(2) show False by (simp add: segOk_def)
  qed
  have m1: "map (\<lambda>x. domText (heap ?st' x)) ys = map (\<lambda>x. domText (heap st x)) ys"
    by (rule map_cong [OF refl]) (use fresh in auto)
  have m2: "map (\<lambda>x. domText (heap ?st' x)) zs = map (\<lambda>x. domText (heap st x)) zs"
    by (rule map_cong [OF refl]) (use fresh in auto)
  have m: "map (\<lambda>x. domText (heap ?st' x)) (ys @ ?n # zs)
      = map (\<lambda>x. domText (heap st x)) ys @ Some (nextDom st) # map (\<lambda>x. domText (heap st x)) zs"
    unfolding map_append list.map m1 m2 dtn ..
  have di: "distinct (map (\<lambda>x. domText (heap ?st' x)) (ys @ ?n # zs))"
    unfolding m using D(7) nd by auto
  have sp: "(if d = L then ys @ [?n] else ys) @ (if d = L then zs else ?n # zs) = ys @ ?n # zs"
    by simp
  have ed: "editing ?st' p (if d = L then ys @ [?n] else ys) (if d = L then zs else ?n # zs)"
  proof (rule editingI)
    show "wfChildren ?st' p ((if d = L then ys @ [?n] else ys) @ (if d = L then zs else ?n # zs))"
      unfolding sp by (rule wf')
    show "p < nextRef ?st'" using D(2) by simp
    show "pParent (cur ?st') = Some p" using D(3) by simp
    show "pL (cur ?st') = lastOpt (if d = L then ys @ [?n] else ys)"
      using D(4) by (cases d) simp_all
    show "pR (cur ?st') = headOpt (if d = L then zs else ?n # zs)"
      using D(5) by (cases d) simp_all
    show "list_all (segOk ?st') ((if d = L then ys @ [?n] else ys) @ (if d = L then zs else ?n # zs))"
      unfolding sp by (rule ok)
    show "distinct (map (\<lambda>x. domText (heap ?st' x))
        ((if d = L then ys @ [?n] else ys) @ (if d = L then zs else ?n # zs)))"
      unfolding sp by (rule di)
  qed
  have nr: "nextRef ?st' = Suc ?n" by simp
  from cp ed wf' fresh tn to cu ok di nr show ?thesis by blast
qed


lemma endChar_L: "t \<noteq> [] \<Longrightarrow> endChar L t = [hd t]"
  by (cases t) (simp_all add: endChar_def js_charAt_def)

lemma endChar_R: "t \<noteq> [] \<Longrightarrow> endChar R t = [last t]"
  by (simp add: endChar_def js_charAt_def last_conv_nth nat_diff_distrib')

lemma editing_recursor:
  assumes e: "editing st p ys zs" and l: "ys' @ zs' = ys @ zs"
    and c: "pParent c = Some p" "pL c = lastOpt ys'" "pR c = headOpt zs'"
  shows "editing (st\<lparr>cur := c\<rparr>) p ys' zs'"
proof (rule editingI)
  note D = editingD [OF e]
  show "wfChildren (st\<lparr>cur := c\<rparr>) p (ys' @ zs')" unfolding l using D(1) by simp
  show "p < nextRef (st\<lparr>cur := c\<rparr>)" using D(2) by simp
  show "pParent (cur (st\<lparr>cur := c\<rparr>)) = Some p" "pL (cur (st\<lparr>cur := c\<rparr>)) = lastOpt ys'"
    "pR (cur (st\<lparr>cur := c\<rparr>)) = headOpt zs'" using c by simp_all
  show "list_all (segOk (st\<lparr>cur := c\<rparr>)) (ys' @ zs')" unfolding l using D(6) by simp
  show "distinct (map (\<lambda>x. domText (heap (st\<lparr>cur := c\<rparr>) x)) (ys' @ zs'))"
    unfolding l using D(7) by simp
qed

text \<open>The character handed over to the left side when stepping right.\<close>
lemma give_R:
  assumes e: "editing st p ys (z # zs)" and ch: "ch = [hd (textStr (heap st z))]"
  shows "\<exists>st1 ys1.
     (if isTextPiece st (sibL (heap st z)) then insTextAtDirEnd (the (sibL (heap st z))) ch R st
      else map_sum id snd (createPiece ch L st)) = Inr st1 \<and>
     editing st1 p ys1 (z # zs) \<and> texts st1 ys1 = texts st ys @ ch \<and>
     texts st1 (z # zs) = texts st (z # zs) \<and>
     anticursor (cur st1) = anticursor (cur st)"
proof -
  note wf = editingD(1) [OF e]
  have sl: "sibL (heap st z) = lastOpt ys" by (rule wf_member(2) [OF wf])
  from editing_distinct [OF e] have di: "distinct (ys @ z # zs)" .
  show ?thesis
  proof (cases ys rule: rev_cases)
    case Nil
    have ne: "ch \<noteq> []" using ch by simp
    from createPiece_editing [OF e ne, of L] obtain st1 where
      c: "createPiece ch L st = Inr (nextRef st, st1)"
      and ed: "editing st1 p (ys @ [nextRef st]) (z # zs)"
      and fr: "nextRef st \<notin> set (ys @ z # zs)"
      and tn: "textStr (heap st1 (nextRef st)) = ch"
      and to: "\<forall>x. x \<noteq> nextRef st \<longrightarrow> textStr (heap st1 x) = textStr (heap st x)"
      and cu: "cur st1 = set_cdir L (Some (nextRef st)) (cur st)"
      by auto
    have t1: "texts st1 (z # zs) = texts st (z # zs)"
    proof (rule texts_cong)
      fix x assume "x \<in> set (z # zs)"
      with fr have "x \<noteq> nextRef st" by auto
      with to show "textStr (heap st1 x) = textStr (heap st x)" by blast
    qed
    have t2: "texts st1 (ys @ [nextRef st]) = texts st ys @ ch" using Nil tn by simp
    have "isTextPiece st (sibL (heap st z)) = False" using sl Nil by (simp add: isTextPiece_def)
    with c ed t1 t2 cu show ?thesis by (intro exI [of _ st1] exI [of _ "ys @ [nextRef st]"]) simp
  next
    case (snoc ys' f)
    have fin: "f \<in> set (ys @ z # zs)" using snoc by simp
    have kf: "kind (heap st f) = TextPieceK"
      using editing_segOk [OF e fin] by (simp add: segOk_def)
    from insText_editing [OF e fin, of ch R] obtain df where
      df: "domText (heap st f) = Some df"
      and r: "insTextAtDirEnd f ch R st = Inr (setText f df (textStr (heap st f) @ ch) st)"
      by auto
    let ?st1 = "setText f df (textStr (heap st f) @ ch) st"
    have ne: "textStr (heap st f) @ ch \<noteq> []" using ch by simp
    have ed: "editing ?st1 p ys (z # zs)" by (rule editing_setText [OF e fin df ne])
    have fz: "f \<notin> set (z # zs)" "f \<notin> set ys'" using di snoc by auto
    have t1: "texts ?st1 (z # zs) = texts st (z # zs)" by (rule texts_setText [OF fz(1)])
    have t2: "texts ?st1 ys = texts st ys @ ch"
      using snoc texts_setText [OF fz(2), of df "textStr (heap st f) @ ch" st] by simp
    have "isTextPiece st (sibL (heap st z))" "the (sibL (heap st z)) = f"
      using sl snoc kf by (simp_all add: isTextPiece_def)
    with r ed t1 t2 show ?thesis by (intro exI [of _ ?st1] exI [of _ ys]) simp
  qed
qed

text \<open>The character handed over to the right side when stepping left.\<close>
lemma give_L:
  assumes e: "editing st p (ys @ [y]) zs" and ch: "ch = [last (textStr (heap st y))]"
  shows "\<exists>st1 zs1.
     (if isTextPiece st (sibR (heap st y)) then insTextAtDirEnd (the (sibR (heap st y))) ch L st
      else map_sum id snd (createPiece ch R st)) = Inr st1 \<and>
     editing st1 p (ys @ [y]) zs1 \<and> texts st1 zs1 = ch @ texts st zs \<and>
     texts st1 (ys @ [y]) = texts st (ys @ [y]) \<and>
     anticursor (cur st1) = anticursor (cur st)"
proof -
  from editingD(1) [OF e] have wf: "wfChildren st p (ys @ y # zs)" by simp
  have sr: "sibR (heap st y) = headOpt zs" by (rule wf_member(1) [OF wf])
  from editing_distinct [OF e] have di: "distinct (ys @ y # zs)" by simp
  show ?thesis
  proof (cases zs)
    case Nil
    have ne: "ch \<noteq> []" using ch by simp
    from createPiece_editing [OF e ne, of R] obtain st1 where
      c: "createPiece ch R st = Inr (nextRef st, st1)"
      and ed: "editing st1 p (ys @ [y]) (nextRef st # zs)"
      and fr: "nextRef st \<notin> set ((ys @ [y]) @ zs)"
      and tn: "textStr (heap st1 (nextRef st)) = ch"
      and to: "\<forall>x. x \<noteq> nextRef st \<longrightarrow> textStr (heap st1 x) = textStr (heap st x)"
      and cu: "cur st1 = set_cdir R (Some (nextRef st)) (cur st)"
      by auto
    have t1: "texts st1 (ys @ [y]) = texts st (ys @ [y])"
    proof (rule texts_cong)
      fix x assume "x \<in> set (ys @ [y])"
      with fr have "x \<noteq> nextRef st" by auto
      with to show "textStr (heap st1 x) = textStr (heap st x)" by blast
    qed
    have t2: "texts st1 (nextRef st # zs) = ch @ texts st zs" using Nil tn by simp
    have "isTextPiece st (sibR (heap st y)) = False" using sr Nil by (simp add: isTextPiece_def)
    with c ed t1 t2 cu show ?thesis by (intro exI [of _ st1] exI [of _ "nextRef st # zs"]) simp
  next
    case (Cons f zs')
    have fin: "f \<in> set ((ys @ [y]) @ zs)" using Cons by simp
    have kf: "kind (heap st f) = TextPieceK"
      using editing_segOk [OF e fin] by (simp add: segOk_def)
    from insText_editing [OF e fin, of ch L] obtain df where
      df: "domText (heap st f) = Some df"
      and r: "insTextAtDirEnd f ch L st = Inr (setText f df (ch @ textStr (heap st f)) st)"
      by auto
    let ?st1 = "setText f df (ch @ textStr (heap st f)) st"
    have ne: "ch @ textStr (heap st f) \<noteq> []" using ch by simp
    have ed: "editing ?st1 p (ys @ [y]) zs" by (rule editing_setText [OF e fin df ne])
    have fz: "f \<notin> set (ys @ [y])" "f \<notin> set zs'" using di Cons by auto
    have t1: "texts ?st1 (ys @ [y]) = texts st (ys @ [y])" by (rule texts_setText [OF fz(1)])
    have t2: "texts ?st1 zs = ch @ texts st zs"
      using Cons texts_setText [OF fz(2), of df "ch @ textStr (heap st f)" st] by simp
    have "isTextPiece st (sibR (heap st y))" "the (sibR (heap st y)) = f"
      using sr Cons kf by (simp_all add: isTextPiece_def)
    with r ed t1 t2 show ?thesis by (intro exI [of _ ?st1] exI [of _ zs]) simp
  qed
qed


lemma texts_heap_cong: "heap st' = heap st \<Longrightarrow> texts st' xs = texts st xs"
  by (simp add: texts_def)

lemma moveTowards_R_editing:
  assumes e: "editing st p ys (z # zs)"
  shows "\<exists>st' ys' zs'. moveTowards R z st = Inr st' \<and> editing st' p ys' zs' \<and>
           texts st' ys' = texts st ys @ [hd (texts st (z # zs))] \<and>
           texts st' zs' = tl (texts st (z # zs)) \<and>
           anticursor (cur st') = anticursor (cur st)"
proof -
  let ?t = "textStr (heap st z)"
  have zin: "z \<in> set (ys @ z # zs)" by simp
  from editing_segOk [OF e zin] have ne: "?t \<noteq> []" by (simp add: segOk_def)
  from give_R [OF e refl] obtain st1 ys1 where
    g: "(if isTextPiece st (sibL (heap st z))
         then insTextAtDirEnd (the (sibL (heap st z))) [hd ?t] R st
         else map_sum id snd (createPiece [hd ?t] L st)) = Inr st1"
    and e1: "editing st1 p ys1 (z # zs)" and t1: "texts st1 ys1 = texts st ys @ [hd ?t]"
    and t2: "texts st1 (z # zs) = texts st (z # zs)"
    and a1: "anticursor (cur st1) = anticursor (cur st)" by blast
  from deleteTowards_R_editing [OF e1] obtain st' zs' where
    d: "deleteTowards R z st1 = Inr st'" and e': "editing st' p ys1 zs'"
    and t3: "texts st' ys1 = texts st1 ys1" and t4: "texts st' zs' = tl (texts st1 (z # zs))"
    and a2: "anticursor (cur st') = anticursor (cur st1)" by blast
  have m: "moveTowards R z st = Inr st'"
    unfolding moveTowards_def Let_def opp.simps sib.simps endChar_L [OF ne] g using d by simp
  have h: "hd (texts st (z # zs)) = hd ?t" using ne by simp
  show ?thesis using m e' t1 t2 t3 t4 a1 a2 h by metis
qed

lemma moveTowards_L_editing:
  assumes e: "editing st p (ys @ [y]) zs"
  shows "\<exists>st' ys' zs'. moveTowards L y st = Inr st' \<and> editing st' p ys' zs' \<and>
           texts st' zs' = [last (texts st (ys @ [y]))] @ texts st zs \<and>
           texts st' ys' = butlast (texts st (ys @ [y])) \<and>
           anticursor (cur st') = anticursor (cur st)"
proof -
  let ?t = "textStr (heap st y)"
  have yin: "y \<in> set ((ys @ [y]) @ zs)" by simp
  from editing_segOk [OF e yin] have ne: "?t \<noteq> []" by (simp add: segOk_def)
  from give_L [OF e refl] obtain st1 zs1 where
    g: "(if isTextPiece st (sibR (heap st y))
         then insTextAtDirEnd (the (sibR (heap st y))) [last ?t] L st
         else map_sum id snd (createPiece [last ?t] R st)) = Inr st1"
    and e1: "editing st1 p (ys @ [y]) zs1" and t1: "texts st1 zs1 = [last ?t] @ texts st zs"
    and t2: "texts st1 (ys @ [y]) = texts st (ys @ [y])"
    and a1: "anticursor (cur st1) = anticursor (cur st)" by blast
  from deleteTowards_L_editing [OF e1] obtain st' ys' where
    d: "deleteTowards L y st1 = Inr st'" and e': "editing st' p ys' zs1"
    and t3: "texts st' zs1 = texts st1 zs1" and t4: "texts st' ys' = butlast (texts st1 (ys @ [y]))"
    and a2: "anticursor (cur st') = anticursor (cur st1)" by blast
  have m: "moveTowards L y st = Inr st'"
    unfolding moveTowards_def Let_def opp.simps sib.simps endChar_R [OF ne] g using d by simp
  have h: "last (texts st (ys @ [y])) = last ?t" using ne by simp
  show ?thesis using m e' t1 t2 t3 t4 a1 a2 h by metis
qed

lemma selectTowards_R_editing:
  assumes e: "editing st p ys (z # zs)" and ac: "anticursor (cur st) = Some ac"
  shows "\<exists>st' ys' zs'. selectTowards R z st = Inr st' \<and> editing st' p ys' zs' \<and>
           texts st' ys' = texts st ys @ [hd (texts st (z # zs))] \<and>
           texts st' zs' = tl (texts st (z # zs)) \<and>
           anticursor (cur st') \<noteq> None"
proof -
  let ?t = "textStr (heap st z)"
  have zin: "z \<in> set (ys @ z # zs)" by simp
  from editing_segOk [OF e zin] have ne: "?t \<noteq> []" by (simp add: segOk_def)
  have h: "hd (texts st (z # zs)) = hd ?t" using ne by simp
  show ?thesis
  proof (cases "pR ac = Some z")
    case True
    let ?n = "nextRef st"
    have cne: "[hd ?t] \<noteq> []" by simp
    from createPiece_editing [OF e cne, of R] obtain st1 where
      c: "createPiece [hd ?t] R st = Inr (?n, st1)"
      and ed: "editing st1 p ys (?n # z # zs)"
      and wf1: "wfChildren st1 p (ys @ ?n # z # zs)"
      and fr: "?n \<notin> set (ys @ z # zs)"
      and tn: "textStr (heap st1 ?n) = [hd ?t]"
      and to: "\<forall>x. x \<noteq> ?n \<longrightarrow> textStr (heap st1 x) = textStr (heap st x)"
      by auto
    let ?st2 = "st1\<lparr>cur := (cur st1)\<lparr>anticursor := Some (set_cdir R (Some ?n) ac)\<rparr>\<rparr>"
    let ?c = "set_cdir L (Some ?n) (set_cdir R (sib R (heap ?st2 ?n))
                ((cur ?st2)\<lparr>pParent := parent (heap ?st2 ?n)\<rparr>))"
    have i: "insDirOf R ?n ?st2 = ?st2\<lparr>cur := ?c\<rparr>" by (simp add: insDirOf_def)
    have e2: "editing ?st2 p ys (?n # z # zs)" using ed by simp
    have e3: "editing (?st2\<lparr>cur := ?c\<rparr>) p (ys @ [?n]) (z # zs)"
    proof (rule editing_recursor [OF e2])
      show "(ys @ [?n]) @ z # zs = ys @ ?n # z # zs" by simp
      show "pParent ?c = Some p" using wf_member(3) [OF wf1] by simp
      show "pL ?c = lastOpt (ys @ [?n])" by simp
      show "pR ?c = headOpt (z # zs)" using wf_member(1) [OF wf1] by simp
    qed
    from deleteTowards_R_editing [OF e3] obtain st' zs' where
      d: "deleteTowards R z (?st2\<lparr>cur := ?c\<rparr>) = Inr st'" and e': "editing st' p (ys @ [?n]) zs'"
      and t3: "texts st' (ys @ [?n]) = texts (?st2\<lparr>cur := ?c\<rparr>) (ys @ [?n])"
      and t4: "texts st' zs' = tl (texts (?st2\<lparr>cur := ?c\<rparr>) (z # zs))"
      and a2: "anticursor (cur st') = anticursor (cur (?st2\<lparr>cur := ?c\<rparr>))" by blast
    have s: "selectTowards R z st = Inr st'"
      unfolding selectTowards_def Let_def opp.simps sib.simps cdir.simps endChar_L [OF ne] ac c
      using d i True by simp
    have ty: "texts st1 ys = texts st ys"
    proof (rule texts_cong)
      fix x assume "x \<in> set ys"
      with fr have "x \<noteq> ?n" by auto
      with to show "textStr (heap st1 x) = textStr (heap st x)" by blast
    qed
    have tz: "texts st1 (z # zs) = texts st (z # zs)"
    proof (rule texts_cong)
      fix x assume "x \<in> set (z # zs)"
      with fr have "x \<noteq> ?n" by auto
      with to show "textStr (heap st1 x) = textStr (heap st x)" by blast
    qed
    have t5: "texts st' (ys @ [?n]) = texts st ys @ [hd (texts st (z # zs))]"
      using t3 ty tn h by simp
    have t6: "texts st' zs' = tl (texts st (z # zs))" using t4 tz by simp
    have a3: "anticursor (cur st') \<noteq> None" using a2 by simp
    from s e' t5 t6 a3 show ?thesis by blast
  next
    case False
    from give_R [OF e refl] obtain st1 ys1 where
      g: "(if isTextPiece st (sibL (heap st z))
           then insTextAtDirEnd (the (sibL (heap st z))) [hd ?t] R st
           else map_sum id snd (createPiece [hd ?t] L st)) = Inr st1"
      and e1: "editing st1 p ys1 (z # zs)" and t1: "texts st1 ys1 = texts st ys @ [hd ?t]"
      and t2: "texts st1 (z # zs) = texts st (z # zs)"
      and a1: "anticursor (cur st1) = anticursor (cur st)" by blast
    let ?st2 = "if length (textStr (heap st1 z)) = 1 \<and> pL ac = Some z
                then st1\<lparr>cur := (cur st1)\<lparr>anticursor := Some (set_cdir L (sibL (heap st1 z)) ac)\<rparr>\<rparr>
                else st1"
    have e2: "editing ?st2 p ys1 (z # zs)" using e1 by simp
    have tx: "\<And>xs. texts ?st2 xs = texts st1 xs" by (simp add: texts_def)
    have a2: "anticursor (cur ?st2) \<noteq> None" using a1 ac by simp
    from deleteTowards_R_editing [OF e2] obtain st' zs' where
      d: "deleteTowards R z ?st2 = Inr st'" and e': "editing st' p ys1 zs'"
      and t3: "texts st' ys1 = texts ?st2 ys1" and t4: "texts st' zs' = tl (texts ?st2 (z # zs))"
      and a3: "anticursor (cur st') = anticursor (cur ?st2)" by blast
    have s: "selectTowards R z st = Inr st'"
      unfolding selectTowards_def Let_def opp.simps sib.simps cdir.simps endChar_L [OF ne] ac g
      using d False by simp
    have t5: "texts st' ys1 = texts st ys @ [hd (texts st (z # zs))]"
      using t3 t1 h by (simp only: tx)
    have t6: "texts st' zs' = tl (texts st (z # zs))" using t4 t2 by (simp only: tx)
    have a4: "anticursor (cur st') \<noteq> None" using a3 a2 by simp
    from s e' t5 t6 a4 show ?thesis by blast
  qed
qed


lemma selectTowards_L_editing:
  assumes e: "editing st p (ys @ [y]) zs" and ac: "anticursor (cur st) = Some ac"
  shows "\<exists>st' ys' zs'. selectTowards L y st = Inr st' \<and> editing st' p ys' zs' \<and>
           texts st' zs' = [last (texts st (ys @ [y]))] @ texts st zs \<and>
           texts st' ys' = butlast (texts st (ys @ [y])) \<and>
           anticursor (cur st') \<noteq> None"
proof -
  let ?t = "textStr (heap st y)"
  have yin: "y \<in> set ((ys @ [y]) @ zs)" by simp
  from editing_segOk [OF e yin] have ne: "?t \<noteq> []" by (simp add: segOk_def)
  have h: "last (texts st (ys @ [y])) = last ?t" using ne by simp
  show ?thesis
  proof (cases "pL ac = Some y")
    case True
    let ?n = "nextRef st"
    have cne: "[last ?t] \<noteq> []" by simp
    from createPiece_editing [OF e cne, of L] obtain st1 where
      c: "createPiece [last ?t] L st = Inr (?n, st1)"
      and ed: "editing st1 p ((ys @ [y]) @ [?n]) zs"
      and wf1: "wfChildren st1 p ((ys @ [y]) @ ?n # zs)"
      and fr: "?n \<notin> set ((ys @ [y]) @ zs)"
      and tn: "textStr (heap st1 ?n) = [last ?t]"
      and to: "\<forall>x. x \<noteq> ?n \<longrightarrow> textStr (heap st1 x) = textStr (heap st x)"
      by auto
    let ?st2 = "st1\<lparr>cur := (cur st1)\<lparr>anticursor := Some (set_cdir L (Some ?n) ac)\<rparr>\<rparr>"
    let ?c = "set_cdir R (Some ?n) (set_cdir L (sib L (heap ?st2 ?n))
                ((cur ?st2)\<lparr>pParent := parent (heap ?st2 ?n)\<rparr>))"
    have i: "insDirOf L ?n ?st2 = ?st2\<lparr>cur := ?c\<rparr>" by (simp add: insDirOf_def)
    have e2: "editing ?st2 p ((ys @ [y]) @ [?n]) zs" using ed by simp
    have e3: "editing (?st2\<lparr>cur := ?c\<rparr>) p (ys @ [y]) (?n # zs)"
    proof (rule editing_recursor [OF e2])
      show "(ys @ [y]) @ ?n # zs = ((ys @ [y]) @ [?n]) @ zs" by simp
      show "pParent ?c = Some p" using wf_member(3) [OF wf1] by simp
      show "pL ?c = lastOpt (ys @ [y])" using wf_member(2) [OF wf1] by simp
      show "pR ?c = headOpt (?n # zs)" by simp
    qed
    from deleteTowards_L_editing [OF e3] obtain st' ys' where
      d: "deleteTowards L y (?st2\<lparr>cur := ?c\<rparr>) = Inr st'" and e': "editing st' p ys' (?n # zs)"
      and t3: "texts st' (?n # zs) = texts (?st2\<lparr>cur := ?c\<rparr>) (?n # zs)"
      and t4: "texts st' ys' = butlast (texts (?st2\<lparr>cur := ?c\<rparr>) (ys @ [y]))"
      and a2: "anticursor (cur st') = anticursor (cur (?st2\<lparr>cur := ?c\<rparr>))" by blast
    have s: "selectTowards L y st = Inr st'"
      unfolding selectTowards_def Let_def opp.simps sib.simps cdir.simps endChar_R [OF ne] ac c
      using d i True by simp
    have tz: "texts st1 zs = texts st zs"
    proof (rule texts_cong)
      fix x assume "x \<in> set zs"
      with fr have "x \<noteq> ?n" by auto
      with to show "textStr (heap st1 x) = textStr (heap st x)" by blast
    qed
    have ty: "texts st1 (ys @ [y]) = texts st (ys @ [y])"
    proof (rule texts_cong)
      fix x assume "x \<in> set (ys @ [y])"
      with fr have "x \<noteq> ?n" by auto
      with to show "textStr (heap st1 x) = textStr (heap st x)" by blast
    qed
    have t5: "texts st' (?n # zs) = [last (texts st (ys @ [y]))] @ texts st zs"
      using t3 tz tn h by simp
    have t6: "texts st' ys' = butlast (texts st (ys @ [y]))" using t4 ty by simp
    have a3: "anticursor (cur st') \<noteq> None" using a2 by simp
    from s e' t5 t6 a3 show ?thesis by blast
  next
    case False
    from give_L [OF e refl] obtain st1 zs1 where
      g: "(if isTextPiece st (sibR (heap st y))
           then insTextAtDirEnd (the (sibR (heap st y))) [last ?t] L st
           else map_sum id snd (createPiece [last ?t] R st)) = Inr st1"
      and e1: "editing st1 p (ys @ [y]) zs1" and t1: "texts st1 zs1 = [last ?t] @ texts st zs"
      and t2: "texts st1 (ys @ [y]) = texts st (ys @ [y])"
      and a1: "anticursor (cur st1) = anticursor (cur st)" by blast
    let ?st2 = "if length (textStr (heap st1 y)) = 1 \<and> pR ac = Some y
                then st1\<lparr>cur := (cur st1)\<lparr>anticursor := Some (set_cdir R (sibR (heap st1 y)) ac)\<rparr>\<rparr>
                else st1"
    have e2: "editing ?st2 p (ys @ [y]) zs1" using e1 by simp
    have tx: "\<And>xs. texts ?st2 xs = texts st1 xs" by (simp add: texts_def)
    have a2: "anticursor (cur ?st2) \<noteq> None" using a1 ac by simp
    from deleteTowards_L_editing [OF e2] obtain st' ys' where
      d: "deleteTowards L y ?st2 = Inr st'" and e': "editing st' p ys' zs1"
      and t3: "texts st' zs1 = texts ?st2 zs1"
      and t4: "texts st' ys' = butlast (texts ?st2 (ys @ [y]))"
      and a3: "anticursor (cur st') = anticursor (cur ?st2)" by blast
    have s: "selectTowards L y st = Inr st'"
      unfolding selectTowards_def Let_def opp.simps sib.simps cdir.simps endChar_R [OF ne] ac g
      using d False by simp
    have t5: "texts st' zs1 = [last (texts st (ys @ [y]))] @ texts st zs"
      using t3 t1 h by (simp only: tx)
    have t6: "texts st' ys' = butlast (texts st (ys @ [y]))" using t4 t2 by (simp only: tx)
    have a4: "anticursor (cur st') \<noteq> None" using a3 a2 by simp
    from s e' t5 t6 a4 show ?thesis by blast
  qed
qed

lemma texts_nonempty_R:
  assumes e: "editing st p ys zs" and t: "texts st zs \<noteq> []"
  shows "\<exists>z zs'. zs = z # zs' \<and> pR (cur st) = Some z \<and> kind (heap st z) = TextPieceK"
proof -
  from t obtain z zs' where z: "zs = z # zs'" by (cases zs) auto
  then have "z \<in> set (ys @ zs)" by simp
  from editing_segOk [OF e this] have "kind (heap st z) = TextPieceK" by (simp add: segOk_def)
  with z editingD(5) [OF e] show ?thesis by simp
qed

lemma texts_nonempty_L:
  assumes e: "editing st p ys zs" and t: "texts st ys \<noteq> []"
  shows "\<exists>y ys'. ys = ys' @ [y] \<and> pL (cur st) = Some y \<and> kind (heap st y) = TextPieceK"
proof -
  from t obtain y ys' where y: "ys = ys' @ [y]" by (cases ys rule: rev_cases) auto
  then have "y \<in> set (ys @ zs)" by simp
  from editing_segOk [OF e this] have "kind (heap st y) = TextPieceK" by (simp add: segOk_def)
  with y editingD(4) [OF e] show ?thesis by simp
qed

lemma step_R_editing:
  assumes e: "editing st p ys zs" and t: "texts st zs \<noteq> []" and c: "callDir c = R"
  shows "\<exists>st' ys' zs'. step c st = Inr st' \<and> editing st' p ys' zs' \<and>
     texts st' ys' @ texts st' zs' = texts st ys @ texts st zs \<and>
     (anticursor (cur st') \<noteq> None) = (anticursor (cur st) \<noteq> None) \<and>
     (if c = Select R \<and> anticursor (cur st) = None
      then length (texts st' ys') = length (texts st ys) \<and>
           length (texts st' zs') = length (texts st zs)
      else length (texts st' ys') = Suc (length (texts st ys)) \<and>
           length (texts st' zs') = length (texts st zs) - 1)"
proof -
  from texts_nonempty_R [OF e t] obtain z zs' where
    z: "zs = z # zs'" "pR (cur st) = Some z" "kind (heap st z) = TextPieceK" by blast
  note e0 = e [unfolded z(1)]
  have tt: "texts st ys @ [hd (texts st zs)] @ tl (texts st zs) = texts st ys @ texts st zs"
    using t by simp
  show ?thesis
  proof (cases c)
    case (Move d)
    with c have cm: "c = Move R" by simp
    from moveTowards_R_editing [OF e0] obtain st' ys' zs'' where
      m: "moveTowards R z st = Inr st'" "editing st' p ys' zs''"
        "texts st' ys' = texts st ys @ [hd (texts st zs)]"
        "texts st' zs'' = tl (texts st zs)" "anticursor (cur st') = anticursor (cur st)"
      unfolding z(1) by blast
    have s: "step c st = Inr st'" using cm z m(1) by (simp add: step_def)
    show ?thesis using s m(2-5) tt cm by (intro exI [of _ st'] exI [of _ ys'] exI [of _ zs'']) simp
  next
    case (Select d)
    with c have cs: "c = Select R" by simp
    show ?thesis
    proof (cases "anticursor (cur st)")
      case None
      then have "step c st = Inr st" using cs z by (simp add: step_def selectTowards_def)
      with e None cs show ?thesis by (intro exI [of _ st] exI [of _ ys] exI [of _ zs]) simp
    next
      case (Some ac)
      from selectTowards_R_editing [OF e0 Some] obtain st' ys' zs'' where
        m: "selectTowards R z st = Inr st'" "editing st' p ys' zs''"
          "texts st' ys' = texts st ys @ [hd (texts st zs)]"
          "texts st' zs'' = tl (texts st zs)" "anticursor (cur st') \<noteq> None"
        unfolding z(1) by blast
      have s: "step c st = Inr st'" using cs z m(1) by (simp add: step_def)
      show ?thesis using s m(2-5) tt cs Some
        by (intro exI [of _ st'] exI [of _ ys'] exI [of _ zs'']) simp
    qed
  qed
qed

lemma step_L_editing:
  assumes e: "editing st p ys zs" and t: "texts st ys \<noteq> []" and c: "callDir c = L"
  shows "\<exists>st' ys' zs'. step c st = Inr st' \<and> editing st' p ys' zs' \<and>
     texts st' ys' @ texts st' zs' = texts st ys @ texts st zs \<and>
     (anticursor (cur st') \<noteq> None) = (anticursor (cur st) \<noteq> None) \<and>
     (if c = Select L \<and> anticursor (cur st) = None
      then length (texts st' ys') = length (texts st ys) \<and>
           length (texts st' zs') = length (texts st zs)
      else length (texts st' ys') = length (texts st ys) - 1 \<and>
           length (texts st' zs') = Suc (length (texts st zs)))"
proof -
  from texts_nonempty_L [OF e t] obtain y ys0 where
    y: "ys = ys0 @ [y]" "pL (cur st) = Some y" "kind (heap st y) = TextPieceK" by blast
  note e0 = e [unfolded y(1)]
  have tt: "butlast (texts st ys) @ [last (texts st ys)] @ texts st zs = texts st ys @ texts st zs"
    using t by simp
  show ?thesis
  proof (cases c)
    case (Move d)
    with c have cm: "c = Move L" by simp
    from moveTowards_L_editing [OF e0] obtain st' ys' zs' where
      m: "moveTowards L y st = Inr st'" "editing st' p ys' zs'"
        "texts st' zs' = [last (texts st ys)] @ texts st zs"
        "texts st' ys' = butlast (texts st ys)" "anticursor (cur st') = anticursor (cur st)"
      unfolding y(1) by blast
    have s: "step c st = Inr st'" using cm y m(1) by (simp add: step_def)
    show ?thesis using s m(2-5) tt cm by (intro exI [of _ st'] exI [of _ ys'] exI [of _ zs']) simp
  next
    case (Select d)
    with c have cs: "c = Select L" by simp
    show ?thesis
    proof (cases "anticursor (cur st)")
      case None
      then have "step c st = Inr st" using cs y by (simp add: step_def selectTowards_def)
      with e None cs show ?thesis by (intro exI [of _ st] exI [of _ ys] exI [of _ zs]) simp
    next
      case (Some ac)
      from selectTowards_L_editing [OF e0 Some] obtain st' ys' zs' where
        m: "selectTowards L y st = Inr st'" "editing st' p ys' zs'"
          "texts st' zs' = [last (texts st ys)] @ texts st zs"
          "texts st' ys' = butlast (texts st ys)" "anticursor (cur st') \<noteq> None"
        unfolding y(1) by blast
      have s: "step c st = Inr st'" using cs y m(1) by (simp add: step_def)
      show ?thesis using s m(2-5) tt cs Some
        by (intro exI [of _ st'] exI [of _ ys'] exI [of _ zs']) simp
    qed
  qed
qed

lemma steps_editing:
  assumes "editing st p ys zs"
    and "fits cs (anticursor (cur st) \<noteq> None) (length (texts st ys)) (length (texts st zs))"
  shows "\<exists>st' ys' zs'. steps cs st = Inr st' \<and> editing st' p ys' zs' \<and>
     texts st' ys' @ texts st' zs' = texts st ys @ texts st zs"
  using assms
proof (induction cs arbitrary: st ys zs)
  case Nil
  then show ?case by auto
next
  case (Cons c cs)
  show ?case
  proof (cases "callDir c")
    case R
    with Cons.prems(2) have t: "texts st zs \<noteq> []" by auto
    from step_R_editing [OF Cons.prems(1) t R] obtain st1 ys1 zs1 where
      s: "step c st = Inr st1" and e1: "editing st1 p ys1 zs1"
      and tx: "texts st1 ys1 @ texts st1 zs1 = texts st ys @ texts st zs"
      and a: "(anticursor (cur st1) \<noteq> None) = (anticursor (cur st) \<noteq> None)"
      and l: "(if c = Select R \<and> anticursor (cur st) = None
        then length (texts st1 ys1) = length (texts st ys) \<and>
             length (texts st1 zs1) = length (texts st zs)
        else length (texts st1 ys1) = Suc (length (texts st ys)) \<and>
             length (texts st1 zs1) = length (texts st zs) - 1)" by blast
    have f: "fits cs (anticursor (cur st1) \<noteq> None) (length (texts st1 ys1))
               (length (texts st1 zs1))"
      using Cons.prems(2) R a l by (auto split: if_splits)
    from Cons.IH [OF e1 f] obtain st' ys' zs' where
      "steps cs st1 = Inr st'" "editing st' p ys' zs'"
      "texts st' ys' @ texts st' zs' = texts st1 ys1 @ texts st1 zs1" by blast
    with s tx show ?thesis by (intro exI [of _ st'] exI [of _ ys'] exI [of _ zs']) simp
  next
    case L
    with Cons.prems(2) have t: "texts st ys \<noteq> []" by auto
    from step_L_editing [OF Cons.prems(1) t L] obtain st1 ys1 zs1 where
      s: "step c st = Inr st1" and e1: "editing st1 p ys1 zs1"
      and tx: "texts st1 ys1 @ texts st1 zs1 = texts st ys @ texts st zs"
      and a: "(anticursor (cur st1) \<noteq> None) = (anticursor (cur st) \<noteq> None)"
      and l: "(if c = Select L \<and> anticursor (cur st) = None
        then length (texts st1 ys1) = length (texts st ys) \<and>
             length (texts st1 zs1) = length (texts st zs)
        else length (texts st1 ys1) = length (texts st ys) - 1 \<and>
             length (texts st1 zs1) = Suc (length (texts st zs)))" by blast
    have f: "fits cs (anticursor (cur st1) \<noteq> None) (length (texts st1 ys1))
               (length (texts st1 zs1))"
      using Cons.prems(2) L a l by (auto split: if_splits)
    from Cons.IH [OF e1 f] obtain st' ys' zs' where
      "steps cs st1 = Inr st'" "editing st' p ys' zs'"
      "texts st' ys' @ texts st' zs' = texts st1 ys1 @ texts st1 zs1" by blast
    with s tx show ?thesis by (intro exI [of _ st'] exI [of _ ys'] exI [of _ zs']) simp
  qed
qed

text \<open>C6: for every state in which the cursor is inside a region of well-formed, mirrored
  segments, and every sequence of single-character \<open>moveTowards\<close> and \<open>selectTowards\<close> calls
  on the cursor's neighbouring segment, in any mix of directions, each of which finds a
  character on its side: all the calls return, and the final \<open>textContents()\<close> of the region
  is the original concatenation of its segments' text.\<close>

theorem traversal_preserves_contents:
  assumes "editing st p ys zs"
    and "fits cs (anticursor (cur st) \<noteq> None) (length (texts st ys)) (length (texts st zs))"
  shows "\<exists>st'. steps cs st = Inr st' \<and> textContents st' p = textContents st p \<and>
           textContents st' p = Some (texts st (ys @ zs))"
proof -
  from steps_editing [OF assms] obtain st' ys' zs' where
    s: "steps cs st = Inr st'" and e: "editing st' p ys' zs'"
    and t: "texts st' ys' @ texts st' zs' = texts st ys @ texts st zs" by blast
  note w1 = editingD(1) [OF e]
  from wfChildren_textContents [OF w1]
  have a: "textContents st' p = Some (texts st' (ys' @ zs'))" by (simp add: texts_def)
  note w0 = editingD(1) [OF assms(1)]
  from wfChildren_textContents [OF w0]
  have b: "textContents st p = Some (texts st (ys @ zs))" by (simp add: texts_def)
  from s a b t show ?thesis by simp
qed

lemma editing_twoSegDoc: "editing twoSegDoc 1 [] [2, 3]"
  by (simp add: editing_def wfChildren_def segOk_def twoSegDoc_def blank_def)

lemma editing_selDoc: "editing selDoc 1 [] [2, 3]"
  by (simp add: selDoc_def editing_def wfChildren_def segOk_def twoSegDoc_def blank_def)

theorem traversal_preserves_contents_witness:
  "editing twoSegDoc 1 [] [2, 3] \<and>
   fits [Move R, Move R, Move R] (anticursor (cur twoSegDoc) \<noteq> None)
     (length (texts twoSegDoc [])) (length (texts twoSegDoc [2, 3])) \<and>
   (\<exists>st'. steps [Move R, Move R, Move R] twoSegDoc = Inr st' \<and>
      textContents st' 1 = Some ''abc'') \<and>
   editing selDoc 1 [] [2, 3] \<and>
   fits [Select R, Select R, Move L, Select R] (anticursor (cur selDoc) \<noteq> None)
     (length (texts selDoc [])) (length (texts selDoc [2, 3])) \<and>
   (\<exists>st'. steps [Select R, Select R, Move L, Select R] selDoc = Inr st' \<and>
      textContents st' 1 = Some ''abc'')"
proof -
  have f: "fits [Move R, Move R, Move R] (anticursor (cur twoSegDoc) \<noteq> None)
     (length (texts twoSegDoc [])) (length (texts twoSegDoc [2, 3]))"
    by (simp add: twoSegDoc_def)
  have g: "fits [Select R, Select R, Move L, Select R] (anticursor (cur selDoc) \<noteq> None)
     (length (texts selDoc [])) (length (texts selDoc [2, 3]))"
    by (simp add: selDoc_def twoSegDoc_def)
  have t: "texts twoSegDoc ([] @ [2, 3]) = ''abc''" "texts selDoc ([] @ [2, 3]) = ''abc''"
    by (simp_all add: selDoc_def twoSegDoc_def)
  from traversal_preserves_contents [OF editing_twoSegDoc f] t
  have a: "\<exists>st'. steps [Move R, Move R, Move R] twoSegDoc = Inr st' \<and>
      textContents st' 1 = Some ''abc''" by auto
  from traversal_preserves_contents [OF editing_selDoc g] t
  have b: "\<exists>st'. steps [Select R, Select R, Move L, Select R] selDoc = Inr st' \<and>
      textContents st' 1 = Some ''abc''" by auto
  show ?thesis using editing_twoSegDoc editing_selDoc f g a b by blast
qed

end
